theory Spec2Isabelle
  imports Main
begin

section \<open>Errors\<close>

text \<open>
  Every error value the package creates itself, the errors handed back by collaborators
  (the row source, a \<open>GetFields\<close> override, a \<open>PostScan\<close> hook), and \<open>Panic\<close> for a
  Go run-time panic (nil dereference, index out of range), which is not an error value
  in Go but ends the call all the same.
\<close>

datatype error =
    EmptyOutputObjectList
  | EmptyFieldList
  | NonStructType
  | NestedNotStruct
  | IncompatibleObject
  | IncorrectParamCount
  | NotGetFields
  | ElementsMustBePointersToSlice
  | ExaminingField string error
  | External nat
  | Panic

section \<open>intermediate.go: ScanMap, iln, BuildMap\<close>

text \<open>\<open>type ScanMap []int\<close>; the entry \<open>-1\<close> is the no-op mapping.\<close>

type_synonym ScanMap = "int list"

text \<open>
  \<open>type iln struct { index int; next, end *iln }\<close>. The nodes live in a heap, a list
  of nodes addressed by position; \<open>None\<close> is the nil pointer and allocation appends a
  node. The fields \<open>next\<close> and \<open>end\<close> are called \<open>nxt\<close> and \<open>endp\<close>.
\<close>

record iln =
  index :: int
  nxt :: "nat option"
  endp :: "nat option"

type_synonym heap = "iln list"

text \<open>\<open>func (n *iln) add(i int) *iln\<close>\<close>

definition add :: "heap \<Rightarrow> nat option \<Rightarrow> int \<Rightarrow> error + (heap \<times> nat option)" where
  "add h n i =
     (case n of
        None \<Rightarrow>
          (let x = length h
           in Inr (h @ [\<lparr>index = i, nxt = None, endp = Some x\<rparr>], Some x))
      | Some p \<Rightarrow>
          if length h \<le> p then Inl Panic
          else (case endp (h ! p) of
                  None \<Rightarrow> Inl Panic
                | Some e \<Rightarrow>
                    if length h \<le> e then Inl Panic
                    else
                      (let x = length h;
                           h1 = h @ [\<lparr>index = i, nxt = None, endp = None\<rparr>];
                           h2 = h1[e := (h1 ! e)\<lparr>nxt := Some x\<rparr>];
                           h3 = h2[p := (h2 ! p)\<lparr>endp := nxt (h2 ! e)\<rparr>]
                       in Inr (h3, Some p))))"

text \<open>\<open>func (n *iln) yoink() (*int, *iln)\<close>; the \<open>*int\<close> is read at once by the caller.\<close>

definition yoink :: "heap \<Rightarrow> nat option \<Rightarrow> error + (heap \<times> int option \<times> nat option)" where
  "yoink h n =
     (case n of
        None \<Rightarrow> Inr (h, None, None)
      | Some p \<Rightarrow>
          if length h \<le> p then Inl Panic
          else if endp (h ! p) \<noteq> Some p then
            (case nxt (h ! p) of
               None \<Rightarrow> Inl Panic
             | Some q \<Rightarrow>
                 if length h \<le> q then Inl Panic
                 else
                   (let h1 = h[q := (h ! q)\<lparr>endp := endp (h ! p)\<rparr>]
                    in Inr (h1, Some (index (h1 ! p)), nxt (h1 ! p))))
          else Inr (h, Some (index (h ! p)), nxt (h ! p)))"

text \<open>
  \<open>NamedFields\<close>: parallel slices of names and of handles (\<open>interface{}\<close> values).
  A handle is the discard receiver \<open>noopScanner{}\<close>, the address of a field of an
  object (\<open>f.Addr().Interface()\<close>), the value of a self-scanning field
  (\<open>f.Interface()\<close>), or a handle made by a \<open>GetFields\<close> override. An object is a
  variable of the caller, the element at an index of one of the caller's slices, or one of
  the values \<open>ScanArray\<close> allocates for itself (\<open>zeros[i]\<close>); a field is named by its
  index path (\<open>FieldByIndex\<close>).
\<close>

datatype obj = Var nat | Elem nat nat | Zero nat

datatype handle =
    noopScanner
  | FieldAddr obj "int list"
  | FieldVal obj "int list"
  | UserHandle nat

record NamedFields =
  Names :: "string list"
  Fields :: "handle list"

text \<open>
  The test \<open>(len(columns) - 5) * (len(fields.Names) - 5) > 100\<close> on Go's 64-bit \<open>int\<close>,
  the wrap-around written out.
\<close>

definition wrap64 :: "int \<Rightarrow> int" where
  "wrap64 x = (x + 2 ^ 63) mod 2 ^ 64 - 2 ^ 63"

definition useBuckets :: "nat \<Rightarrow> nat \<Rightarrow> bool" where
  "useBuckets m n = (100 < wrap64 (wrap64 (int m - 5) * wrap64 (int n - 5)))"

text \<open>
  The first branch: \<open>columnsByName\<close> maps a name to the head of its list of column
  indices (a missing key reads as nil).
  \<open>for i, c := range columns { columnsByName[c.Name()] = columnsByName[c.Name()].add(i) }\<close>
\<close>

fun fillBuckets ::
  "heap \<Rightarrow> (string \<Rightarrow> nat option) \<Rightarrow> int \<Rightarrow> string list
     \<Rightarrow> error + (heap \<times> (string \<Rightarrow> nat option))" where
  "fillBuckets h columnsByName i [] = Inr (h, columnsByName)"
| "fillBuckets h columnsByName i (c # cs) =
     (case add h (columnsByName c) i of
        Inl e \<Rightarrow> Inl e
      | Inr (h', p) \<Rightarrow> fillBuckets h' (columnsByName(c := p)) (i + 1) cs)"

text \<open>
  \<open>for i, n := range fields.Names { x, columnsByName[n] = columnsByName[n].yoink();
  if x != nil { output[*x] = i } }\<close>
\<close>

fun drainBuckets ::
  "heap \<Rightarrow> (string \<Rightarrow> nat option) \<Rightarrow> ScanMap \<Rightarrow> int \<Rightarrow> string list \<Rightarrow> error + ScanMap" where
  "drainBuckets h columnsByName output i [] = Inr output"
| "drainBuckets h columnsByName output i (n # ns) =
     (case yoink h (columnsByName n) of
        Inl e \<Rightarrow> Inl e
      | Inr (h', x, p) \<Rightarrow>
          (case x of
             None \<Rightarrow> drainBuckets h' (columnsByName(n := p)) output (i + 1) ns
           | Some j \<Rightarrow>
               if j < 0 \<or> int (length output) \<le> j then Inl Panic
               else drainBuckets h' (columnsByName(n := p)) (output[nat j := i]) (i + 1) ns))"

definition bucketStrategy :: "string list \<Rightarrow> string list \<Rightarrow> ScanMap \<Rightarrow> error + ScanMap" where
  "bucketStrategy columns names output =
     (case fillBuckets [] (\<lambda>_. None) 0 columns of
        Inl e \<Rightarrow> Inl e
      | Inr (h, columnsByName) \<Rightarrow> drainBuckets h columnsByName output 0 names)"

text \<open>
  The second branch. The inner loop over the columns, for the field \<open>n\<close> at index \<open>i\<close>:
  \<open>if output[j] != -1 { continue }; if n == c.Name() { output[j] = i; continue MainLoop }\<close>
\<close>

fun scanColumns :: "string \<Rightarrow> int \<Rightarrow> nat \<Rightarrow> string list \<Rightarrow> ScanMap \<Rightarrow> error + ScanMap" where
  "scanColumns n i j [] output = Inr output"
| "scanColumns n i j (c # cs) output =
     (if length output \<le> j then Inl Panic
      else if output ! j \<noteq> - 1 then scanColumns n i (Suc j) cs output
      else if n = c then Inr (output[j := i])
      else scanColumns n i (Suc j) cs output)"

fun MainLoop :: "int \<Rightarrow> string list \<Rightarrow> string list \<Rightarrow> ScanMap \<Rightarrow> error + ScanMap" where
  "MainLoop i [] columns output = Inr output"
| "MainLoop i (n # ns) columns output =
     (case scanColumns n i 0 columns output of
        Inl e \<Rightarrow> Inl e
      | Inr output' \<Rightarrow> MainLoop (i + 1) ns columns output')"

definition nestedStrategy :: "string list \<Rightarrow> string list \<Rightarrow> ScanMap \<Rightarrow> error + ScanMap" where
  "nestedStrategy columns names output = MainLoop 0 names columns output"

text \<open>
  The body of \<open>BuildMap\<close> after the call \<open>columns, err := adv.ColumnTypes()\<close>,
  given what the call returned: the column names (\<open>None\<close> for a nil slice) and the
  error. \<open>Inr None\<close> is the nil map returned with a nil error.
\<close>

definition buildMapFrom ::
  "string list option \<times> error option \<Rightarrow> NamedFields \<Rightarrow> error + ScanMap option" where
  "buildMapFrom adv nf =
     (case adv of
        (_, Some err) \<Rightarrow> Inl err
      | (None, None) \<Rightarrow> Inr None
      | (Some columns, None) \<Rightarrow>
          (let output = replicate (length columns) (- 1)
           in case (if useBuckets (length columns) (length (Names nf))
                    then bucketStrategy columns (Names nf) output
                    else nestedStrategy columns (Names nf) output) of
                Inl e \<Rightarrow> Inl e
              | Inr output' \<Rightarrow> Inr (Some output')))"

text \<open>\<open>func (n *NamedFields) Append(other NamedFields)\<close>\<close>

definition Append :: "NamedFields \<Rightarrow> NamedFields \<Rightarrow> NamedFields" where
  "Append n other = \<lparr>Names = Names n @ Names other, Fields = Fields n @ Fields other\<rparr>"

text \<open>\<open>func (n *NamedFields) Push(name string, field interface{})\<close>\<close>

definition Push :: "NamedFields \<Rightarrow> string \<Rightarrow> handle \<Rightarrow> NamedFields" where
  "Push n name field = \<lparr>Names = Names n @ [name], Fields = Fields n @ [field]\<rparr>"

section \<open>Types and values as the package sees them through reflection\<close>

text \<open>
  A \<open>reflect.Type\<close>: a struct type with its name, its fields in declaration order and
  the names of the methods declared with a value and with a pointer receiver; a pointer
  type; an interface type with its methods; any other named type. A struct field carries
  its name, whether it is exported (\<open>len(field.PkgPath) == 0\<close>), the result of
  \<open>field.Tag.Lookup("dml")\<close>, \<open>field.Anonymous\<close> and its type.
\<close>

datatype gotype =
    TStruct string "sfield list" "string list" "string list"
  | TPtr gotype
  | TInterface "string list"
  | TOther string "string list" "string list"
and sfield =
    SField string bool "string option" bool gotype

datatype kind = Struct | Ptr | Interface | Invalid | OtherKind

fun Kind :: "gotype \<Rightarrow> kind" where
  "Kind (TStruct _ _ _ _) = Struct"
| "Kind (TPtr _) = Ptr"
| "Kind (TInterface _) = Interface"
| "Kind (TOther _ _ _) = OtherKind"

text \<open>
  \<open>t.Implements(u)\<close> for an interface \<open>u\<close> with the single method \<open>m\<close>: the method
  set of a named type holds its value-receiver methods, the method set of a pointer to
  it those and the pointer-receiver methods.
\<close>

fun Implements :: "gotype \<Rightarrow> string \<Rightarrow> bool" where
  "Implements (TStruct _ _ vm pm) m = (m \<in> set vm)"
| "Implements (TOther _ vm pm) m = (m \<in> set vm)"
| "Implements (TInterface ms) m = (m \<in> set ms)"
| "Implements (TPtr (TStruct _ _ vm pm)) m = (m \<in> set vm \<or> m \<in> set pm)"
| "Implements (TPtr (TOther _ vm pm)) m = (m \<in> set vm \<or> m \<in> set pm)"
| "Implements (TPtr _) m = False"

abbreviation getFieldsType :: string where "getFieldsType \<equiv> ''GetFields''"
abbreviation sqlScannerType :: string where "sqlScannerType \<equiv> ''Scan''"
abbreviation postProcessableType :: string where "postProcessableType \<equiv> ''PostScan''"

text \<open>
  A \<open>reflect.Value\<close>: the invalid value (of a nil interface, or the \<open>Elem\<close> of a nil
  pointer); a pointer or an interface value with its type and its \<open>Elem\<close>; a struct
  value with its type, whether it is settable, and the object it is; any other value.
\<close>

datatype rvalue =
    RInvalid
  | RPtr gotype rvalue
  | RIface gotype rvalue
  | RStruct gotype bool obj
  | ROther gotype bool

fun VKind :: "rvalue \<Rightarrow> kind" where
  "VKind RInvalid = Invalid"
| "VKind (RPtr _ _) = Ptr"
| "VKind (RIface _ _) = Interface"
| "VKind (RStruct _ _ _) = Struct"
| "VKind (ROther _ _) = OtherKind"

fun CanSet :: "rvalue \<Rightarrow> bool" where
  "CanSet (RStruct _ s _) = s"
| "CanSet (ROther _ s) = s"
| "CanSet _ = False"

text \<open>\<open>v.Type()\<close>, which panics on the invalid value.\<close>

fun VType :: "rvalue \<Rightarrow> gotype option" where
  "VType RInvalid = None"
| "VType (RPtr t _) = Some t"
| "VType (RIface t _) = Some t"
| "VType (RStruct t _ _) = Some t"
| "VType (ROther t _) = Some t"

section \<open>The field cache\<close>

text \<open>
  \<open>type fieldCacheEntry struct { Names []string; Fields [][]int; IsScanner []bool }\<close>;
  the fields carry the prefix \<open>c\<close> here, \<open>Names\<close> and \<open>Fields\<close> being those of
  \<open>NamedFields\<close>.
\<close>

record fieldCacheEntry =
  cNames :: "string list"
  cFields :: "int list list"
  cIsScanner :: "bool list"

definition emptyEntry :: fieldCacheEntry where
  "emptyEntry = \<lparr>cNames = [], cFields = [], cIsScanner = []\<rparr>"

text \<open>
  \<open>func (c *fieldCacheEntry) Push(name string, prefix []int, value int, scanner bool)\<close>;
  \<open>append(prefix[:len(prefix):len(prefix)], value)\<close> always copies the prefix.
\<close>

definition cPush :: "fieldCacheEntry \<Rightarrow> string \<Rightarrow> int list \<Rightarrow> int \<Rightarrow> bool \<Rightarrow> fieldCacheEntry" where
  "cPush c name prefix v scanner =
     \<lparr>cNames = cNames c @ [name], cFields = cFields c @ [prefix @ [v]],
      cIsScanner = cIsScanner c @ [scanner]\<rparr>"

text \<open>\<open>func (c *fieldCacheEntry) Append(other fieldCacheEntry)\<close>\<close>

definition cAppend :: "fieldCacheEntry \<Rightarrow> fieldCacheEntry \<Rightarrow> fieldCacheEntry" where
  "cAppend c other =
     \<lparr>cNames = cNames c @ cNames other, cFields = cFields c @ cFields other,
      cIsScanner = cIsScanner c @ cIsScanner other\<rparr>"

text \<open>
  \<open>buildFieldCacheEntryForType\<close> and its loop \<open>for i := 0; i < t.NumField(); i++\<close>,
  here \<open>fieldLoop\<close> over the fields that remain, \<open>i\<close> the index of the first of them.
\<close>

fun buildFieldCacheEntryForType :: "gotype \<Rightarrow> int list \<Rightarrow> error + fieldCacheEntry"
and fieldLoop :: "sfield list \<Rightarrow> int \<Rightarrow> int list \<Rightarrow> fieldCacheEntry \<Rightarrow> error + fieldCacheEntry" where
  "buildFieldCacheEntryForType (TStruct name fs vm pm) path = fieldLoop fs 0 path emptyEntry"
| "buildFieldCacheEntryForType (TPtr t) path = Inl NonStructType"
| "buildFieldCacheEntryForType (TInterface ms) path = Inl NonStructType"
| "buildFieldCacheEntryForType (TOther name vm pm) path = Inl NonStructType"
| "fieldLoop [] i path output = Inr output"
| "fieldLoop (SField fname exported tag anonymous ftype # fs) i path output =
     (if exported \<and> tag \<noteq> None then
        fieldLoop fs (i + 1) path
          (cPush output (the tag) path i (Implements ftype sqlScannerType))
      else if anonymous \<and> Kind ftype = Struct then
        (case buildFieldCacheEntryForType ftype (path @ [i]) of
           Inl sub_error \<Rightarrow> Inl (ExaminingField fname sub_error)
         | Inr sub_cache \<Rightarrow> fieldLoop fs (i + 1) path (cAppend output sub_cache))
      else fieldLoop fs (i + 1) path output)"

text \<open>
  \<open>NamedFieldsMaker\<close>: the pass-through shim for a \<open>GetFields\<close> implementor, or a
  cached entry.
\<close>

datatype NamedFieldsMaker = namedFieldsFromGetFields | CacheEntry fieldCacheEntry

text \<open>
  The loop \<open>for t.Kind() == reflect.Ptr || t.Kind() == reflect.Interface { t = t.Elem() }\<close>
  of \<open>getFieldCachesFor\<close>; \<open>Elem\<close> of an interface type panics.
\<close>

fun unwrapType :: "gotype \<Rightarrow> error + gotype" where
  "unwrapType (TPtr t) = unwrapType t"
| "unwrapType (TInterface ms) = Inl Panic"
| "unwrapType t = Inr t"

text \<open>
  \<open>getFieldCachesFor\<close>, the cache \<open>fieldsCache\<close> passed in and returned. The two
  lookups under the read and the write lock are one lookup here.
\<close>

type_synonym fieldsCache = "gotype \<Rightarrow> fieldCacheEntry option"

definition getFieldCachesFor ::
  "gotype \<Rightarrow> fieldsCache \<Rightarrow> (error + NamedFieldsMaker) \<times> fieldsCache" where
  "getFieldCachesFor t fc =
     (if Implements t getFieldsType then (Inr namedFieldsFromGetFields, fc)
      else case unwrapType t of
             Inl e \<Rightarrow> (Inl e, fc)
           | Inr t' \<Rightarrow>
               if Kind t' \<noteq> Struct then (Inl NestedNotStruct, fc)
               else (case fc t' of
                       Some cached \<Rightarrow> (Inr (CacheEntry cached), fc)
                     | None \<Rightarrow>
                         (case buildFieldCacheEntryForType t' [] of
                            Inl e \<Rightarrow> (Inl e, fc)
                          | Inr cached \<Rightarrow> (Inr (CacheEntry cached), fc(t' \<mapsto> cached)))))"

text \<open>\<open>GetNamedFieldsMakers\<close>\<close>

fun GetNamedFieldsMakers ::
  "gotype list \<Rightarrow> NamedFieldsMaker list \<Rightarrow> fieldsCache
     \<Rightarrow> (error + NamedFieldsMaker list) \<times> fieldsCache" where
  "GetNamedFieldsMakers [] output fc = (Inr output, fc)"
| "GetNamedFieldsMakers (t # ts) output fc =
     (case getFieldCachesFor t fc of
        (Inl e, fc') \<Rightarrow> (Inl e, fc')
      | (Inr cached, fc') \<Rightarrow> GetNamedFieldsMakers ts (output @ [cached]) fc')"

section \<open>Collaborators and the state of a call\<close>

text \<open>
  The methods of the row source (\<open>Scannable\<close>, \<open>AdvancedScannable\<close>,
  \<open>IterableScannable\<close>) act on its state \<open>'s\<close>. \<open>Scan\<close> receives the handles and
  answers with the values it writes, each through the handle at a position of its
  argument list, and its error. \<open>GetFields\<close> and \<open>PostScan\<close> are the methods a target
  type may declare. \<open>zeroM\<close> is the zero value of a type (\<open>reflect.New\<close>), a map from
  the field paths to their zero values.
\<close>

record ('s, 'v) collab =
  scanM :: "handle list \<Rightarrow> 's \<Rightarrow> ((nat \<times> 'v) list \<times> error option) \<times> 's"
  columnTypesM :: "'s \<Rightarrow> (string list option \<times> error option) \<times> 's"
  nextM :: "'s \<Rightarrow> bool \<times> 's"
  errM :: "'s \<Rightarrow> error option \<times> 's"
  getFieldsM :: "rvalue \<Rightarrow> error + NamedFields"
  postScanM :: "rvalue \<Rightarrow> error option"
  zeroM :: "gotype \<Rightarrow> int list \<Rightarrow> 'v"

text \<open>Every call of a collaborator's method is recorded, in order.\<close>

datatype event =
    EvScan "handle list"
  | EvColumnTypes
  | EvNext
  | EvErr
  | EvGetFields rvalue
  | EvPostScan rvalue

text \<open>
  The state: the row source, the caller's variables (each a map from field paths to
  values), the caller's slices (each a list of elements), the package's \<open>fieldsCache\<close>
  and the record of the calls made.
\<close>

record ('s, 'v) world =
  src :: 's
  vars :: "nat \<Rightarrow> int list \<Rightarrow> 'v"
  slices :: "nat \<Rightarrow> (int list \<Rightarrow> 'v) list"
  cache :: fieldsCache
  trace :: "event list"

text \<open>
  A write through a handle. Only the address of a field reaches the caller's memory;
  the discard receiver drops the value, and the other handles write elsewhere.
\<close>

fun writeThrough :: "handle \<Rightarrow> 'v \<Rightarrow> ('s, 'v) world \<Rightarrow> ('s, 'v) world" where
  "writeThrough (FieldAddr (Var a) path) v w =
     w\<lparr>vars := (vars w)(a := (vars w a)(path := v))\<rparr>"
| "writeThrough (FieldAddr (Elem p i) path) v w =
     (if i < length (slices w p)
      then w\<lparr>slices := (slices w)(p := (slices w p)[i := ((slices w p) ! i)(path := v)])\<rparr>
      else w)"
| "writeThrough _ v w = w"

fun applyWrites :: "handle list \<Rightarrow> (nat \<times> 'v) list \<Rightarrow> ('s, 'v) world \<Rightarrow> ('s, 'v) world" where
  "applyWrites hs [] w = w"
| "applyWrites hs ((k, v) # ws) w =
     applyWrites hs ws (if k < length hs then writeThrough (hs ! k) v w else w)"

definition callScan ::
  "('s, 'v) collab \<Rightarrow> handle list \<Rightarrow> ('s, 'v) world \<Rightarrow> error option \<times> ('s, 'v) world" where
  "callScan c hs w =
     (case scanM c hs (src w) of
        ((writes, r), s') \<Rightarrow>
          (r, applyWrites hs writes (w\<lparr>src := s', trace := trace w @ [EvScan hs]\<rparr>)))"

definition callColumnTypes ::
  "('s, 'v) collab \<Rightarrow> ('s, 'v) world
     \<Rightarrow> (string list option \<times> error option) \<times> ('s, 'v) world" where
  "callColumnTypes c w =
     (case columnTypesM c (src w) of
        (r, s') \<Rightarrow> (r, w\<lparr>src := s', trace := trace w @ [EvColumnTypes]\<rparr>))"

definition callNext :: "('s, 'v) collab \<Rightarrow> ('s, 'v) world \<Rightarrow> bool \<times> ('s, 'v) world" where
  "callNext c w =
     (case nextM c (src w) of
        (r, s') \<Rightarrow> (r, w\<lparr>src := s', trace := trace w @ [EvNext]\<rparr>))"

definition callErr :: "('s, 'v) collab \<Rightarrow> ('s, 'v) world \<Rightarrow> error option \<times> ('s, 'v) world" where
  "callErr c w =
     (case errM c (src w) of
        (r, s') \<Rightarrow> (r, w\<lparr>src := s', trace := trace w @ [EvErr]\<rparr>))"

text \<open>\<open>func BuildMap(adv AdvancedScannable, fields NamedFields) (ScanMap, error)\<close>\<close>

definition BuildMap ::
  "('s, 'v) collab \<Rightarrow> NamedFields \<Rightarrow> ('s, 'v) world
     \<Rightarrow> (error + ScanMap option) \<times> ('s, 'v) world" where
  "BuildMap adv nf w =
     (case callColumnTypes adv w of (columns, w') \<Rightarrow> (buildMapFrom columns nf, w'))"

section \<open>Rendering NamedFields\<close>

fun fieldType :: "sfield \<Rightarrow> gotype" where
  "fieldType (SField fname exported tag anonymous ftype) = ftype"

text \<open>Whether \<open>v.FieldByIndex(index)\<close> finds a field, for \<open>v\<close> of type \<open>t\<close>; it panics otherwise.\<close>

fun validIndex :: "gotype \<Rightarrow> int list \<Rightarrow> bool" where
  "validIndex t [] = True"
| "validIndex t (i # rest) =
     (case t of
        TStruct name fs vm pm \<Rightarrow>
          0 \<le> i \<and> nat i < length fs \<and> validIndex (fieldType (fs ! nat i)) rest
      | _ \<Rightarrow> False)"

text \<open>
  One step of the loop of \<open>fieldCacheEntry.NamedFields\<close>:
  \<open>f := v.FieldByIndex(c.Fields[i]); if !c.IsScanner[i] { f = f.Addr() }; f.Interface()\<close>
\<close>

fun fieldHandle :: "rvalue \<Rightarrow> int list \<Rightarrow> bool \<Rightarrow> error + handle" where
  "fieldHandle (RStruct t settable ob) path scanner =
     (if \<not> validIndex t path then Inl Panic
      else if scanner then Inr (FieldVal ob path)
      else if settable then Inr (FieldAddr ob path)
      else Inl Panic)"
| "fieldHandle _ path scanner = Inl Panic"

fun entryLoop ::
  "rvalue \<Rightarrow> string list \<Rightarrow> int list list \<Rightarrow> bool list \<Rightarrow> NamedFields \<Rightarrow> error + NamedFields" where
  "entryLoop v [] fs ss n = Inr n"
| "entryLoop v (name # names) (path # fs) (scanner # ss) n =
     (case fieldHandle v path scanner of
        Inl e \<Rightarrow> Inl e
      | Inr h \<Rightarrow> entryLoop v names fs ss (Push n name h))"
| "entryLoop v (name # names) _ _ n = Inl Panic"

text \<open>
  \<open>NamedFields(v reflect.Value)\<close> of the two makers. The shim calls the target's own
  \<open>GetFields\<close> when \<open>v.Interface().(GetFields)\<close> succeeds.
\<close>

definition makerNamedFields ::
  "('s, 'v) collab \<Rightarrow> NamedFieldsMaker \<Rightarrow> rvalue \<Rightarrow> ('s, 'v) world
     \<Rightarrow> (error + NamedFields) \<times> ('s, 'v) world" where
  "makerNamedFields c mk v w =
     (case mk of
        namedFieldsFromGetFields \<Rightarrow>
          (case VType v of
             None \<Rightarrow> (Inl Panic, w)
           | Some t \<Rightarrow>
               if Implements t getFieldsType
               then (getFieldsM c v, w\<lparr>trace := trace w @ [EvGetFields v]\<rparr>)
               else (Inl NotGetFields, w))
      | CacheEntry e \<Rightarrow>
          (entryLoop v (cNames e) (cFields e) (cIsScanner e) \<lparr>Names = [], Fields = []\<rparr>, w))"

fun renderLoop ::
  "('s, 'v) collab \<Rightarrow> NamedFieldsMaker list \<Rightarrow> rvalue list \<Rightarrow> NamedFields \<Rightarrow> ('s, 'v) world
     \<Rightarrow> (error + NamedFields) \<times> ('s, 'v) world" where
  "renderLoop c [] vs output w = (Inr output, w)"
| "renderLoop c (n # nfm) [] output w = (Inl Panic, w)"
| "renderLoop c (n # nfm) (v # vs) output w =
     (case makerNamedFields c n v w of
        (Inl e, w') \<Rightarrow> (Inl e, w')
      | (Inr f, w') \<Rightarrow> renderLoop c nfm vs (Append output f) w')"

text \<open>\<open>RenderNamedFields\<close>\<close>

definition RenderNamedFields ::
  "('s, 'v) collab \<Rightarrow> NamedFieldsMaker list \<Rightarrow> rvalue list \<Rightarrow> ('s, 'v) world
     \<Rightarrow> (error + NamedFields) \<times> ('s, 'v) world" where
  "RenderNamedFields c nfm vals w =
     (if length nfm \<noteq> length vals then (Inl IncorrectParamCount, w)
      else renderLoop c nfm vals \<lparr>Names = [], Fields = []\<rparr> w)"

text \<open>
  The inner loop \<open>for v.Kind() != reflect.Invalid\<close> of \<open>internalNormalizeObjects\<close>:
  \<open>True\<close> with the value that implements \<open>GetFields\<close>, or \<open>False\<close> with the value
  the loop ended on.
\<close>

fun unwrapValue :: "rvalue \<Rightarrow> bool \<times> rvalue" where
  "unwrapValue RInvalid = (False, RInvalid)"
| "unwrapValue (RPtr t inner) =
     (if Implements t getFieldsType then (True, RPtr t inner) else unwrapValue inner)"
| "unwrapValue (RIface t inner) =
     (if Implements t getFieldsType then (True, RIface t inner) else unwrapValue inner)"
| "unwrapValue (RStruct t s ob) = (Implements t getFieldsType, RStruct t s ob)"
| "unwrapValue (ROther t s) = (Implements t getFieldsType, ROther t s)"

fun internalNormalizeObjects ::
  "rvalue list \<Rightarrow> bool \<Rightarrow> rvalue list \<Rightarrow> gotype list \<Rightarrow> error + (rvalue list \<times> gotype list)" where
  "internalNormalizeObjects [] ignoreUnsettable out_vals out_types = Inr (out_vals, out_types)"
| "internalNormalizeObjects (i # into) ignoreUnsettable out_vals out_types =
     (case unwrapValue i of
        (found, v) \<Rightarrow>
          (case VType v of
             None \<Rightarrow> Inl IncompatibleObject
           | Some t \<Rightarrow>
               if found \<or> ((ignoreUnsettable \<or> CanSet v) \<and> VKind v = Struct)
               then internalNormalizeObjects into ignoreUnsettable (out_vals @ [v]) (out_types @ [t])
               else Inl IncompatibleObject))"

definition NormalizeObjects :: "rvalue list \<Rightarrow> error + (rvalue list \<times> gotype list)" where
  "NormalizeObjects into = internalNormalizeObjects into False [] []"

text \<open>\<open>func GetFieldsFrom(into ...ScanInto) (output NamedFields, err error)\<close>\<close>

definition GetFieldsFrom ::
  "('s, 'v) collab \<Rightarrow> rvalue list \<Rightarrow> ('s, 'v) world
     \<Rightarrow> (error + NamedFields) \<times> ('s, 'v) world" where
  "GetFieldsFrom c into w =
     (case NormalizeObjects into of
        Inl e \<Rightarrow> (Inl e, w)
      | Inr (vals, types) \<Rightarrow>
          (case GetNamedFieldsMakers types [] (cache w) of
             (Inl e, fc) \<Rightarrow> (Inl e, w\<lparr>cache := fc\<rparr>)
           | (Inr nfm, fc) \<Rightarrow> RenderNamedFields c nfm vals (w\<lparr>cache := fc\<rparr>)))"

text \<open>The loop \<open>for _, x := range into[1:]\<close> of \<open>BuildNamedFields\<close>.\<close>

fun appendFieldsFrom ::
  "('s, 'v) collab \<Rightarrow> rvalue list \<Rightarrow> NamedFields \<Rightarrow> ('s, 'v) world
     \<Rightarrow> (error + NamedFields) \<times> ('s, 'v) world" where
  "appendFieldsFrom c [] nf w = (Inr nf, w)"
| "appendFieldsFrom c (x # xs) nf w =
     (case GetFieldsFrom c [x] w of
        (Inl new_err, w') \<Rightarrow> (Inl new_err, w')
      | (Inr new_fields, w') \<Rightarrow> appendFieldsFrom c xs (Append nf new_fields) w')"

text \<open>\<open>func BuildNamedFields(into []ScanInto) (NamedFields, error)\<close>\<close>

definition BuildNamedFields ::
  "('s, 'v) collab \<Rightarrow> rvalue list \<Rightarrow> ('s, 'v) world
     \<Rightarrow> (error + NamedFields) \<times> ('s, 'v) world" where
  "BuildNamedFields c into w =
     (case into of
        [] \<Rightarrow> (Inl EmptyOutputObjectList, w)
      | first # rest \<Rightarrow>
          (case GetFieldsFrom c [first] w of
             (Inl err, w') \<Rightarrow> (Inl err, w')
           | (Inr nf, w') \<Rightarrow> appendFieldsFrom c rest nf w'))"

text \<open>\<open>func postScan(into []ScanInto) error\<close>\<close>

fun postScan ::
  "('s, 'v) collab \<Rightarrow> rvalue list \<Rightarrow> ('s, 'v) world \<Rightarrow> error option \<times> ('s, 'v) world" where
  "postScan c [] w = (None, w)"
| "postScan c (i # into) w =
     (if (case VType i of None \<Rightarrow> False | Some t \<Rightarrow> Implements t postProcessableType)
      then (case postScanM c i of
              Some err \<Rightarrow> (Some err, w\<lparr>trace := trace w @ [EvPostScan i]\<rparr>)
            | None \<Rightarrow> postScan c into (w\<lparr>trace := trace w @ [EvPostScan i]\<rparr>))
      else postScan c into w)"

section \<open>scaninto.go\<close>

text \<open>
  The loop of \<open>ScanWithMappedFields\<close> that fills \<open>field_list\<close> from the map;
  \<open>fields.Fields[idx_into]\<close> panics out of range.
\<close>

fun mapFields :: "ScanMap \<Rightarrow> handle list \<Rightarrow> error + handle list" where
  "mapFields [] fs = Inr []"
| "mapFields (idx_into # m) fs =
     (if idx_into = - 1 then
        (case mapFields m fs of Inl e \<Rightarrow> Inl e | Inr rest \<Rightarrow> Inr (noopScanner # rest))
      else if idx_into < 0 \<or> int (length fs) \<le> idx_into then Inl Panic
      else (case mapFields m fs of Inl e \<Rightarrow> Inl e | Inr rest \<Rightarrow> Inr (fs ! nat idx_into # rest)))"

text \<open>
  \<open>func ScanWithMappedFields(s Scannable, m ScanMap, fields NamedFields) error\<close>,
  first the value of its variable \<open>field_list\<close> when the length is tested.
\<close>

definition field_list :: "ScanMap option \<Rightarrow> NamedFields \<Rightarrow> error + handle list" where
  "field_list m nf =
     (case m of None \<Rightarrow> Inr (Fields nf) | Some m' \<Rightarrow> mapFields m' (Fields nf))"

definition ScanWithMappedFields ::
  "('s, 'v) collab \<Rightarrow> ScanMap option \<Rightarrow> NamedFields \<Rightarrow> ('s, 'v) world
     \<Rightarrow> error option \<times> ('s, 'v) world" where
  "ScanWithMappedFields s m nf w =
     (case field_list m nf of
        Inl e \<Rightarrow> (Some e, w)
      | Inr hs \<Rightarrow>
          if length hs = 0 then (Some EmptyFieldList, w)
          else callScan s hs w)"

text \<open>\<open>func QuickScan(s Scannable, into ...ScanInto) error\<close>\<close>

definition QuickScan ::
  "('s, 'v) collab \<Rightarrow> rvalue list \<Rightarrow> ('s, 'v) world \<Rightarrow> error option \<times> ('s, 'v) world" where
  "QuickScan s into w =
     (case BuildNamedFields s into w of
        (Inl err, w1) \<Rightarrow> (Some err, w1)
      | (Inr nf, w1) \<Rightarrow>
          (case ScanWithMappedFields s None nf w1 of
             (Some err, w2) \<Rightarrow> (Some err, w2)
           | (None, w2) \<Rightarrow> postScan s into w2))"

text \<open>\<open>func ScanWithFields(adv AdvancedScannable, fields NamedFields) error\<close>\<close>

definition ScanWithFields ::
  "('s, 'v) collab \<Rightarrow> NamedFields \<Rightarrow> ('s, 'v) world \<Rightarrow> error option \<times> ('s, 'v) world" where
  "ScanWithFields adv nf w =
     (case BuildMap adv nf w of
        (Inl err, w1) \<Rightarrow> (Some err, w1)
      | (Inr m, w1) \<Rightarrow> ScanWithMappedFields adv m nf w1)"

text \<open>\<open>func Scan(adv AdvancedScannable, into ...ScanInto) error\<close>\<close>

definition Scan ::
  "('s, 'v) collab \<Rightarrow> rvalue list \<Rightarrow> ('s, 'v) world \<Rightarrow> error option \<times> ('s, 'v) world" where
  "Scan adv into w =
     (case BuildNamedFields adv into w of
        (Inl err, w1) \<Rightarrow> (Some err, w1)
      | (Inr nf, w1) \<Rightarrow>
          (case ScanWithFields adv nf w1 of
             (Some err, w2) \<Rightarrow> (Some err, w2)
           | (None, w2) \<Rightarrow> postScan adv into w2))"

text \<open>\<open>func ScanWithMap(s Scannable, m ScanMap, into ...ScanInto) error\<close>\<close>

definition ScanWithMap ::
  "('s, 'v) collab \<Rightarrow> ScanMap option \<Rightarrow> rvalue list \<Rightarrow> ('s, 'v) world
     \<Rightarrow> error option \<times> ('s, 'v) world" where
  "ScanWithMap s m into w =
     (case BuildNamedFields s into w of
        (Inl err, w1) \<Rightarrow> (Some err, w1)
      | (Inr nf, w1) \<Rightarrow>
          (case ScanWithMappedFields s m nf w1 of
             (Some err, w2) \<Rightarrow> (Some err, w2)
           | (None, w2) \<Rightarrow> postScan s into w2))"

section \<open>ScanArray\<close>

text \<open>
  An argument of \<open>ScanArray\<close>: a pointer to a slice, the slice variable at an address
  and of an element type; a pointer to something else (or a nil pointer); or no pointer.
\<close>

datatype arrayArg = SlicePtr nat gotype | PointerToNonSlice | NonPointer

text \<open>\<open>func getSlices(into []ScanIntoArray) (out []reflect.Value, err error)\<close>\<close>

fun getSlices :: "arrayArg list \<Rightarrow> (nat \<times> gotype) list \<Rightarrow> error + (nat \<times> gotype) list" where
  "getSlices [] out = Inr out"
| "getSlices (SlicePtr p t # into) out = getSlices into (out @ [(p, t)])"
| "getSlices (PointerToNonSlice # into) out = Inl ElementsMustBePointersToSlice"
| "getSlices (NonPointer # into) out = Inl ElementsMustBePointersToSlice"

text \<open>
  The zero value of a type as a \<open>reflect.Value\<close>, settable, being the object \<open>ob\<close>: a
  struct, a nil pointer, a nil interface, or another value.
\<close>

fun zeroValue :: "gotype \<Rightarrow> obj \<Rightarrow> rvalue" where
  "zeroValue (TStruct name fs vm pm) ob = RStruct (TStruct name fs vm pm) True ob"
| "zeroValue (TPtr t) ob = RPtr (TPtr t) RInvalid"
| "zeroValue (TInterface ms) ob = RIface (TInterface ms) RInvalid"
| "zeroValue (TOther name vm pm) ob = ROther (TOther name vm pm) True"

text \<open>
  \<open>zeros[i] = newValueForSliceContents(slices[i])\<close>, that is
  \<open>reflect.New(slice.Type().Elem()).Interface()\<close>: a pointer to a new zero value.
\<close>

fun newValues :: "nat \<Rightarrow> (nat \<times> gotype) list \<Rightarrow> rvalue list" where
  "newValues i [] = []"
| "newValues i ((p, t) # sl) = RPtr (TPtr t) (zeroValue t (Zero i)) # newValues (Suc i) sl"

text \<open>
  \<open>for i, s := range slices { s.Set(reflect.Append(s, reflect.Indirect(reflect.ValueOf(zeros[i])))) }\<close>
\<close>

fun appendZeros :: "('s, 'v) collab \<Rightarrow> (nat \<times> gotype) list \<Rightarrow> ('s, 'v) world \<Rightarrow> ('s, 'v) world" where
  "appendZeros c [] w = w"
| "appendZeros c ((p, t) # sl) w =
     appendZeros c sl (w\<lparr>slices := (slices w)(p := slices w p @ [zeroM c t])\<rparr>)"

text \<open>
  \<open>func renderInto(slices []reflect.Value) (out []reflect.Value)\<close>, the last elements
  of the slices; \<open>s.Index(s.Len() - 1)\<close> panics on an empty slice. The element is the
  zero value just appended.
\<close>

fun renderInto :: "(nat \<times> gotype) list \<Rightarrow> ('s, 'v) world \<Rightarrow> error + rvalue list" where
  "renderInto [] w = Inr []"
| "renderInto ((p, t) # sl) w =
     (if length (slices w p) = 0 then Inl Panic
      else case renderInto sl w of
             Inl e \<Rightarrow> Inl e
           | Inr out \<Rightarrow> Inr (zeroValue t (Elem p (length (slices w p) - 1)) # out))"

text \<open>
  The body of the loop \<open>for it.Next() { ... }\<close>, after \<open>Next\<close> has answered true: the
  error it returns with, or none when it reaches its end.
\<close>

definition rowBody ::
  "('s, 'v) collab \<Rightarrow> (nat \<times> gotype) list \<Rightarrow> NamedFieldsMaker list \<Rightarrow> ScanMap option
     \<Rightarrow> ('s, 'v) world \<Rightarrow> error option \<times> ('s, 'v) world" where
  "rowBody it sl nfm smap w =
     (case callErr it (appendZeros it sl w) of
        (Some err, w1) \<Rightarrow> (Some err, w1)
      | (None, w1) \<Rightarrow>
          (case renderInto sl w1 of
             Inl e \<Rightarrow> (Some e, w1)
           | Inr vals \<Rightarrow>
               (case RenderNamedFields it nfm vals w1 of
                  (Inl err, w2) \<Rightarrow> (Some err, w2)
                | (Inr named_fields, w2) \<Rightarrow> ScanWithMappedFields it smap named_fields w2)))"

text \<open>
  The loop. The row source decides how long it runs, so it is given fuel, one unit for
  each call of \<open>Next\<close>; \<open>None\<close> is the loop that has not returned when the fuel is spent.
\<close>

fun rowLoop ::
  "nat \<Rightarrow> ('s, 'v) collab \<Rightarrow> (nat \<times> gotype) list \<Rightarrow> NamedFieldsMaker list \<Rightarrow> ScanMap option
     \<Rightarrow> ('s, 'v) world \<Rightarrow> (error option \<times> ('s, 'v) world) option" where
  "rowLoop 0 it sl nfm smap w = None"
| "rowLoop (Suc fuel) it sl nfm smap w =
     (case callNext it w of
        (False, w1) \<Rightarrow> Some (None, w1)
      | (True, w1) \<Rightarrow>
          (case rowBody it sl nfm smap w1 of
             (Some err, w2) \<Rightarrow> Some (Some err, w2)
           | (None, w2) \<Rightarrow> rowLoop fuel it sl nfm smap w2))"

text \<open>
  The deferred function when \<open>rewind\<close> is set:
  \<open>for i := range slices { slices[i].SetLen(slices[i].Len() - 1) }\<close>; \<open>SetLen\<close> panics
  below zero.
\<close>

fun rewindSlices :: "(nat \<times> gotype) list \<Rightarrow> ('s, 'v) world \<Rightarrow> error option \<times> ('s, 'v) world" where
  "rewindSlices [] w = (None, w)"
| "rewindSlices ((p, t) # sl) w =
     (if length (slices w p) = 0 then (Some Panic, w)
      else rewindSlices sl (w\<lparr>slices := (slices w)(p := take (length (slices w p) - 1) (slices w p))\<rparr>))"

text \<open>
  The part of \<open>ScanArray\<close> before its loop: the slices, the makers and the map, or the
  error it returns with.
\<close>

definition scanArraySetup ::
  "('s, 'v) collab \<Rightarrow> arrayArg list \<Rightarrow> ('s, 'v) world
     \<Rightarrow> (error + ((nat \<times> gotype) list \<times> NamedFieldsMaker list \<times> ScanMap option)) \<times> ('s, 'v) world" where
  "scanArraySetup it into w =
     (case getSlices into [] of
        Inl err \<Rightarrow> (Inl err, w)
      | Inr sl \<Rightarrow>
          (case internalNormalizeObjects (newValues 0 sl) True [] [] of
             Inl err \<Rightarrow> (Inl err, w)
           | Inr (vals, types) \<Rightarrow>
               (case GetNamedFieldsMakers types [] (cache w) of
                  (Inl err, fc) \<Rightarrow> (Inl err, w\<lparr>cache := fc\<rparr>)
                | (Inr nfm, fc) \<Rightarrow>
                    (case RenderNamedFields it nfm vals (w\<lparr>cache := fc\<rparr>) of
                       (Inl err, w1) \<Rightarrow> (Inl err, w1)
                     | (Inr named_fields, w1) \<Rightarrow>
                         (case BuildMap it named_fields w1 of
                            (Inl err, w2) \<Rightarrow> (Inl err, w2)
                          | (Inr smap, w2) \<Rightarrow> (Inr (sl, nfm, smap), w2))))))"

text \<open>
  \<open>func ScanArray(it IterableScannable, into ...ScanIntoArray) error\<close>. An error of the
  loop, a panic too, passes through the deferred function; a panic of that function is
  the one the caller sees.
\<close>

definition ScanArray ::
  "nat \<Rightarrow> ('s, 'v) collab \<Rightarrow> arrayArg list \<Rightarrow> ('s, 'v) world
     \<Rightarrow> (error option \<times> ('s, 'v) world) option" where
  "ScanArray fuel it into w =
     (case scanArraySetup it into w of
        (Inl err, w1) \<Rightarrow> Some (Some err, w1)
      | (Inr (sl, nfm, smap), w1) \<Rightarrow>
          (case rowLoop fuel it sl nfm smap w1 of
             None \<Rightarrow> None
           | Some (None, w2) \<Rightarrow> Some (None, w2)
           | Some (Some err, w2) \<Rightarrow>
               (case rewindSlices sl w2 of
                  (None, w3) \<Rightarrow> Some (Some err, w3)
                | (Some panic, w3) \<Rightarrow> Some (Some panic, w3))))"

section \<open>scannables.go: scannableWrapper\<close>

text \<open>
  \<open>type scannableWrapper struct { Scannable; done bool }\<close>, around a row source of
  state \<open>'s\<close>; the field \<open>done\<close> is called \<open>doneFlag\<close>.
\<close>

record 's scannableWrapper =
  Scannable :: 's
  doneFlag :: bool

definition Next :: "'s scannableWrapper \<Rightarrow> bool \<times> 's scannableWrapper" where
  "Next s = (if doneFlag s then (False, s) else (True, s\<lparr>doneFlag := True\<rparr>))"

definition Err :: "'s scannableWrapper \<Rightarrow> error option \<times> 's scannableWrapper" where
  "Err s = (None, s)"

definition ColumnTypes ::
  "'s scannableWrapper \<Rightarrow> (string list option \<times> error option) \<times> 's scannableWrapper" where
  "ColumnTypes s = ((None, None), s)"

definition WrapBasic :: "'s \<Rightarrow> 's scannableWrapper" where
  "WrapBasic inner = \<lparr>Scannable = inner, doneFlag = False\<rparr>"

text \<open>
  The wrapper as a row source: \<open>Scan\<close> is the embedded one's, promoted, and the other
  three methods are the wrapper's own.
\<close>

definition wrapped :: "('s, 'v) collab \<Rightarrow> ('s scannableWrapper, 'v) collab" where
  "wrapped c =
     \<lparr>scanM = (\<lambda>hs s. case scanM c hs (Scannable s) of
                        (r, inner') \<Rightarrow> (r, s\<lparr>Scannable := inner'\<rparr>)),
      columnTypesM = ColumnTypes,
      nextM = Next,
      errM = Err,
      getFieldsM = getFieldsM c,
      postScanM = postScanM c,
      zeroM = zeroM c\<rparr>"

section \<open>everything_test.go: RowMock\<close>

text \<open>
  \<open>type RowMock struct { columns []string; values []string; colerr error }\<close>. Its \<open>Scan\<close>
  gives the value at a position to the receiver at that position: a \<open>sql.Scanner\<close>
  (the discard receiver, a self-scanning field) takes it, a \<open>*string\<close> is written, and
  anything else is a bad type. It has no \<open>Next\<close> and no \<open>Err\<close>; they are filled in as
  those of an exhausted source. The fields carry the prefix \<open>rm_\<close>.
\<close>

record RowMock =
  rm_columns :: "string list option"
  rm_values :: "string list"
  rm_colerr :: "error option"

fun rowMockScan :: "nat \<Rightarrow> handle list \<Rightarrow> string list \<Rightarrow> (nat \<times> string) list \<times> error option" where
  "rowMockScan i [] vs = ([], None)"
| "rowMockScan i (h # hs) vs =
     (if length vs \<le> i then ([], Some Panic)
      else case h of
             UserHandle _ \<Rightarrow> ([], Some (External 0))
           | _ \<Rightarrow> (case rowMockScan (Suc i) hs vs of (ws, r) \<Rightarrow> ((i, vs ! i) # ws, r)))"

definition rowMock :: "(RowMock, string) collab" where
  "rowMock =
     \<lparr>scanM = (\<lambda>hs r. (rowMockScan 0 hs (rm_values r), r)),
      columnTypesM = (\<lambda>r. ((rm_columns r, rm_colerr r), r)),
      nextM = (\<lambda>r. (False, r)),
      errM = (\<lambda>r. (None, r)),
      getFieldsM = (\<lambda>v. Inr \<lparr>Names = [], Fields = []\<rparr>),
      postScanM = (\<lambda>v. None),
      zeroM = (\<lambda>t path. [])\<rparr>"

definition world0 :: "'s \<Rightarrow> ('s, string) world" where
  "world0 s = \<lparr>src = s, vars = (\<lambda>_ _. []), slices = (\<lambda>_. []), cache = (\<lambda>_. None), trace = []\<rparr>"

section \<open>The matching rule, as the specification words it\<close>

text \<open>
  The columns a field named \<open>n\<close> may still claim: those named \<open>n\<close> whose entry is
  still \<open>-1\<close>, from left to right.
\<close>

definition unclaimed :: "string list \<Rightarrow> ScanMap \<Rightarrow> string \<Rightarrow> nat list" where
  "unclaimed columns output n = [j \<leftarrow> [0..<length columns]. output ! j = - 1 \<and> columns ! j = n]"

text \<open>A field claims the leftmost of them, if there is one.\<close>

definition claimLeftmost :: "string list \<Rightarrow> ScanMap \<Rightarrow> string \<Rightarrow> int \<Rightarrow> ScanMap" where
  "claimLeftmost columns output n i =
     (case unclaimed columns output n of [] \<Rightarrow> output | j # _ \<Rightarrow> output[j := i])"

text \<open>The fields claim in field order, \<open>i\<close> the index of the first that remains.\<close>

fun claimAll :: "string list \<Rightarrow> int \<Rightarrow> string list \<Rightarrow> ScanMap \<Rightarrow> ScanMap" where
  "claimAll columns i [] output = output"
| "claimAll columns i (n # ns) output = claimAll columns (i + 1) ns (claimLeftmost columns output n i)"

text \<open>The Position Map: every column unclaimed at first, then all the fields claim.\<close>

definition positionMap :: "string list \<Rightarrow> string list \<Rightarrow> ScanMap" where
  "positionMap columns names = claimAll columns 0 names (replicate (length columns) (- 1))"

text \<open>
  The rule, said of a finished map: the field \<open>i\<close> claims the column \<open>j\<close> when the
  column has the field's name, no earlier field has it, and every column of that name to
  its left has gone to an earlier field.
\<close>

definition claims :: "string list \<Rightarrow> string list \<Rightarrow> ScanMap \<Rightarrow> nat \<Rightarrow> nat \<Rightarrow> bool" where
  "claims columns names out i j \<longleftrightarrow>
     columns ! j = names ! i \<and>
     (\<forall>i'<i. out ! j \<noteq> int i') \<and>
     (\<forall>j'<j. columns ! j' = names ! i \<longrightarrow> (\<exists>i'<i. out ! j' = int i'))"

text \<open>
  The invariant of the loop over the fields, after the first \<open>t\<close> of them: every column
  is unclaimed or claimed by one of them, and each of them has exactly the columns it claims.
\<close>

definition matched :: "string list \<Rightarrow> string list \<Rightarrow> nat \<Rightarrow> ScanMap \<Rightarrow> bool" where
  "matched columns names t out \<longleftrightarrow>
     length out = length columns \<and>
     (\<forall>j<length columns. out ! j = - 1 \<or> (\<exists>i<t. out ! j = int i)) \<and>
     (\<forall>i<t. \<forall>j<length columns. out ! j = int i \<longleftrightarrow> claims columns names out i j)"

section \<open>The linked list of iln as a queue\<close>

text \<open>
  The nodes reached from \<open>p\<close> along \<open>next\<close> are those at the addresses \<open>as\<close>, in
  this order, and the last of them has no successor.
\<close>

fun chain :: "heap \<Rightarrow> nat option \<Rightarrow> nat list \<Rightarrow> bool" where
  "chain h p [] = (p = None)"
| "chain h p (a # as) = (p = Some a \<and> a < length h \<and> chain h (nxt (h ! a)) as)"

text \<open>
  A well-formed list: no address twice, and the head's \<open>end\<close> points to the last node.
\<close>

definition queue :: "heap \<Rightarrow> nat option \<Rightarrow> nat list \<Rightarrow> bool" where
  "queue h p as \<longleftrightarrow>
     chain h p as \<and> distinct as \<and> (as \<noteq> [] \<longrightarrow> endp (h ! hd as) = Some (last as))"

text \<open>
  The map \<open>columnsByName\<close>: under every name a well-formed list, at the addresses
  \<open>A n\<close>, and the lists of two names share no node.
\<close>

definition buckets :: "heap \<Rightarrow> (string \<Rightarrow> nat option) \<Rightarrow> (string \<Rightarrow> nat list) \<Rightarrow> bool" where
  "buckets h m A \<longleftrightarrow>
     (\<forall>n. queue h (m n) (A n)) \<and> (\<forall>n n'. n \<noteq> n' \<longrightarrow> set (A n) \<inter> set (A n') = {})"

text \<open>The indices stored in the nodes of a list.\<close>

definition contents :: "heap \<Rightarrow> nat list \<Rightarrow> int list" where
  "contents h as = map (\<lambda>a. index (h ! a)) as"

text \<open>The positions of the name \<open>n\<close> in a list of columns, counted from \<open>i\<close>.\<close>

fun positions :: "string \<Rightarrow> int \<Rightarrow> string list \<Rightarrow> int list" where
  "positions n i [] = []"
| "positions n i (c # cs) = (if c = n then [i] else []) @ positions n (i + 1) cs"

section \<open>The descriptor of a structure type, as the specification words it\<close>

text \<open>
  An entry of a descriptor: the external name, the field path and the self-scanning flag.
\<close>

type_synonym entry = "string \<times> int list \<times> bool"

text \<open>
  The three parallel slices of a \<open>fieldCacheEntry\<close> that hold the entries.
\<close>

definition toEntry :: "entry list \<Rightarrow> fieldCacheEntry" where
  "toEntry es = \<lparr>cNames = map fst es, cFields = map (fst \<circ> snd) es, cIsScanner = map (snd \<circ> snd) es\<rparr>"

text \<open>
  The descriptor: the fields in declaration order, \<open>i\<close> the index of the first that
  remains; an exported field with a \<open>dml\<close> tag gives one entry, under the path extended
  by its index; another field that is an anonymous structure gives the entries of that
  structure, under the extended path, where it is declared; any other field gives nothing.
\<close>

fun descriptor :: "gotype \<Rightarrow> int list \<Rightarrow> entry list"
and fieldEntries :: "sfield list \<Rightarrow> int \<Rightarrow> int list \<Rightarrow> entry list" where
  "descriptor (TStruct name fs vm pm) path = fieldEntries fs 0 path"
| "descriptor (TPtr t) path = []"
| "descriptor (TInterface ms) path = []"
| "descriptor (TOther name vm pm) path = []"
| "fieldEntries [] i path = []"
| "fieldEntries (SField fname exported tag anonymous ftype # fs) i path =
     (if exported \<and> tag \<noteq> None then [(the tag, path @ [i], Implements ftype sqlScannerType)]
      else if anonymous \<and> Kind ftype = Struct then descriptor ftype (path @ [i])
      else [])
     @ fieldEntries fs (i + 1) path"

text \<open>
  The same with every anonymous structure expanded, tagged or not, and a tag read only on
  the other fields.
\<close>

fun flattened :: "gotype \<Rightarrow> int list \<Rightarrow> entry list"
and flattenedFields :: "sfield list \<Rightarrow> int \<Rightarrow> int list \<Rightarrow> entry list" where
  "flattened (TStruct name fs vm pm) path = flattenedFields fs 0 path"
| "flattened (TPtr t) path = []"
| "flattened (TInterface ms) path = []"
| "flattened (TOther name vm pm) path = []"
| "flattenedFields [] i path = []"
| "flattenedFields (SField fname exported tag anonymous ftype # fs) i path =
     (if anonymous \<and> Kind ftype = Struct then flattened ftype (path @ [i])
      else if exported \<and> tag \<noteq> None then [(the tag, path @ [i], Implements ftype sqlScannerType)]
      else [])
     @ flattenedFields fs (i + 1) path"

text \<open>
  The types on which the two agree: no anonymous structure that is expanded is itself an
  exported field with a \<open>dml\<close> tag.
\<close>

fun untaggedEmbedding :: "gotype \<Rightarrow> bool"
and untaggedEmbeddingFields :: "sfield list \<Rightarrow> bool" where
  "untaggedEmbedding (TStruct name fs vm pm) = untaggedEmbeddingFields fs"
| "untaggedEmbedding (TPtr t) = True"
| "untaggedEmbedding (TInterface ms) = True"
| "untaggedEmbedding (TOther name vm pm) = True"
| "untaggedEmbeddingFields [] = True"
| "untaggedEmbeddingFields (SField fname exported tag anonymous ftype # fs) =
     ((if anonymous \<and> Kind ftype = Struct
       then \<not> (exported \<and> tag \<noteq> None) \<and> untaggedEmbedding ftype else True)
      \<and> untaggedEmbeddingFields fs)"

text \<open>
  The cache holds, for a type, only what \<open>buildFieldCacheEntryForType\<close> builds for it.
\<close>

definition cacheOk :: "fieldsCache \<Rightarrow> bool" where
  "cacheOk fc \<longleftrightarrow> (\<forall>t cached. fc t = Some cached \<longrightarrow> buildFieldCacheEntryForType t [] = Inr cached)"

section \<open>The hooks called, read from the record of calls\<close>

text \<open>
  The targets whose \<open>PostScan\<close> was called, in the order of the calls.
\<close>

fun hooksOf :: "event list \<Rightarrow> rvalue list" where
  "hooksOf [] = []"
| "hooksOf (EvPostScan v # es) = v # hooksOf es"
| "hooksOf (e # es) = hooksOf es"

text \<open>
  The test \<open>i.(ScanIntoPostProcessable)\<close> of \<open>postScan\<close>.
\<close>

definition postProcessable :: "rvalue \<Rightarrow> bool" where
  "postProcessable v = (case VType v of None \<Rightarrow> False | Some t \<Rightarrow> Implements t postProcessableType)"

text \<open>
  The hooks \<open>postScan\<close> calls: those of the targets that have one, in target order, up
  to and with the first that returns an error.
\<close>

definition invokedHooks :: "('s, 'v) collab \<Rightarrow> rvalue list \<Rightarrow> rvalue list" where
  "invokedHooks c into =
     (let hooked = filter postProcessable into
      in takeWhile (\<lambda>v. postScanM c v = None) hooked
         @ take 1 (dropWhile (\<lambda>v. postScanM c v = None) hooked))"

text \<open>
  A step from \<open>w\<close> to \<open>w'\<close> that calls no hook: the record of calls grows by calls
  that are not \<open>PostScan\<close>.
\<close>

definition quiet :: "('s, 'v) world \<Rightarrow> ('s, 'v) world \<Rightarrow> bool" where
  "quiet w w' \<longleftrightarrow> (\<exists>mid. trace w' = trace w @ mid \<and> hooksOf mid = [])"

section \<open>The loop of ScanArray, row by row\<close>

text \<open>
  The slice variables \<open>ScanArray\<close> was given.
\<close>

definition targets :: "(nat \<times> gotype) list \<Rightarrow> nat set" where
  "targets sl = fst ` set sl"






section \<open>Examples\<close>

text \<open>
  The order example of the specification: an anonymous structure with the tag \<open>f0\<close>
  declared before the tagged fields \<open>f1\<close> and \<open>f2\<close>; and a type whose anonymous
  structure is itself exported and tagged.
\<close>

definition strT :: gotype where "strT = TOther ''string'' [] []"

definition embeddedF0 :: gotype where
  "embeddedF0 = TStruct ''E'' [SField ''F0'' True (Some ''f0'') False strT] [] []"

definition orderExample :: gotype where
  "orderExample = TStruct ''T''
     [SField ''E'' True None True embeddedF0,
      SField ''F1'' True (Some ''f1'') False strT,
      SField ''F2'' True (Some ''f2'') False strT] [] []"

definition taggedEmbedding :: gotype where
  "taggedEmbedding = TStruct ''T''
     [SField ''E'' True (Some ''e'') True embeddedF0,
      SField ''F1'' True (Some ''f1'') False strT] [] []"






section \<open>The record of calls\<close>

lemma trace_writeThrough: "trace (writeThrough h v w) = trace w"
  by (cases "(h, v, w)" rule: writeThrough.cases) auto

lemma trace_applyWrites: "trace (applyWrites hs ws w) = trace w"
  by (induction hs ws w rule: applyWrites.induct) (auto simp: trace_writeThrough)

lemma trace_callScan: "trace (snd (callScan s hs w)) = trace w @ [EvScan hs]"
  by (auto simp: callScan_def trace_applyWrites split: prod.splits)

section \<open>The scan executor\<close>

lemma mapFields_Nil: "mapFields m fs = Inr [] \<longleftrightarrow> m = []"
  by (cases m) (auto split: sum.splits)

lemma field_list_Nil:
  "field_list m nf = Inr [] \<longleftrightarrow> (m = None \<and> Fields nf = []) \<or> m = Some []"
  by (cases m) (auto simp: field_list_def mapFields_Nil)

lemma MainLoop_no_columns: "MainLoop i names [] [] = Inr []"
  by (induction names arbitrary: i) auto

lemma drainBuckets_no_columns: "drainBuckets h (\<lambda>_. None) [] i names = Inr []"
proof (induction names arbitrary: i)
  case Nil
  then show ?case by simp
next
  case (Cons n ns)
  have "(\<lambda>_. None)(n := None) = (\<lambda>_::string. None::nat option)" by auto
  then show ?case using Cons by (simp add: yoink_def)
qed

lemma buildMapFrom_no_columns: "buildMapFrom (Some [], None) nf = Inr (Some [])"
  by (simp add: buildMapFrom_def nestedStrategy_def bucketStrategy_def
      MainLoop_no_columns drainBuckets_no_columns)

text \<open>
  C4. When \<open>ColumnTypes\<close> answers nil with a nil error, \<open>BuildMap\<close> returns the nil
  map (after that one call). With the nil map \<open>ScanWithMappedFields\<close> hands
  \<open>fields.Fields\<close> to \<open>Scan\<close> as it is: the call recorded is \<open>Scan\<close> on exactly that
  list. An empty, non-nil column list is another case: it gives the empty, non-nil map,
  with which the scan is refused, whatever the fields are.
\<close>

theorem verbatim_mode:
  "(columnTypesM adv (src w) = ((None, None), s') \<longrightarrow>
      BuildMap adv nf w = (Inr None, w\<lparr>src := s', trace := trace w @ [EvColumnTypes]\<rparr>)) \<and>
   ScanWithMappedFields s None nf w =
     (if Fields nf = [] then (Some EmptyFieldList, w) else callScan s (Fields nf) w) \<and>
   (Fields nf \<noteq> [] \<longrightarrow>
      trace (snd (ScanWithMappedFields s None nf w)) = trace w @ [EvScan (Fields nf)]) \<and>
   buildMapFrom (None, None) nf = Inr None \<and>
   buildMapFrom (Some [], None) nf = Inr (Some []) \<and>
   ScanWithMappedFields s (Some []) nf w = (Some EmptyFieldList, w)"
  apply (intro conjI impI)
  subgoal by (simp add: BuildMap_def callColumnTypes_def buildMapFrom_def)
  subgoal by (simp add: ScanWithMappedFields_def field_list_def)
  subgoal by (simp add: ScanWithMappedFields_def field_list_def trace_callScan)
  subgoal by (simp add: buildMapFrom_def)
  subgoal by (rule buildMapFrom_no_columns)
  subgoal by (simp add: ScanWithMappedFields_def field_list_def)
  done

theorem verbatim_mode_witness:
  "columnTypesM rowMock (src (world0 \<lparr>rm_columns = None, rm_values = [''v1'', ''v2''], rm_colerr = None\<rparr>)) =
     ((None, None), \<lparr>rm_columns = None, rm_values = [''v1'', ''v2''], rm_colerr = None\<rparr>) \<and>
   fst (BuildMap rowMock \<lparr>Names = [''a'', ''b''], Fields = [FieldAddr (Var 0) [0], FieldAddr (Var 0) [1]]\<rparr>
          (world0 \<lparr>rm_columns = None, rm_values = [''v1'', ''v2''], rm_colerr = None\<rparr>)) = Inr None \<and>
   Fields \<lparr>Names = [''a'', ''b''], Fields = [FieldAddr (Var 0) [0], FieldAddr (Var 0) [1]]\<rparr> \<noteq> [] \<and>
   trace (snd (ScanWithMappedFields rowMock None
          \<lparr>Names = [''a'', ''b''], Fields = [FieldAddr (Var 0) [0], FieldAddr (Var 0) [1]]\<rparr>
          (world0 \<lparr>rm_columns = None, rm_values = [''v1'', ''v2''], rm_colerr = None\<rparr>))) =
     [EvScan [FieldAddr (Var 0) [0], FieldAddr (Var 0) [1]]]"
proof -
  let ?r = "\<lparr>rm_columns = None, rm_values = [''v1'', ''v2''], rm_colerr = None\<rparr>"
  let ?nf = "\<lparr>Names = [''a'', ''b''], Fields = [FieldAddr (Var 0) [0], FieldAddr (Var 0) [1]]\<rparr>"
  note v = verbatim_mode [of rowMock "world0 ?r" ?r ?nf rowMock]
  have h: "columnTypesM rowMock (src (world0 ?r)) = ((None, None), ?r)"
    by (simp add: rowMock_def world0_def)
  have n: "Fields ?nf \<noteq> []"
    by simp
  from v h have 1: "fst (BuildMap rowMock ?nf (world0 ?r)) = Inr None"
    by (metis fst_conv)
  from v n have 2: "trace (snd (ScanWithMappedFields rowMock None ?nf (world0 ?r))) =
      trace (world0 ?r) @ [EvScan (Fields ?nf)]"
    by blast
  have 3: "trace (world0 ?r) @ [EvScan (Fields ?nf)] =
      [EvScan [FieldAddr (Var 0) [0], FieldAddr (Var 0) [1]]]"
    by (simp add: world0_def)
  show ?thesis
    using h n 1 2 3 by presburger
qed

text \<open>
  C6. The handle list is empty exactly with the nil map and no fields, or with a map of
  length zero. Then \<open>ScanWithMappedFields\<close> returns its own error and leaves the state
  as it was: nothing is added to the record of calls, so \<open>Scan\<close> is not called.
\<close>

theorem empty_scan_rejected:
  "(field_list m nf = Inr [] \<longleftrightarrow> (m = None \<and> Fields nf = []) \<or> m = Some []) \<and>
   (field_list m nf = Inr [] \<longrightarrow>
      ScanWithMappedFields s m nf w = (Some EmptyFieldList, w) \<and>
      trace (snd (ScanWithMappedFields s m nf w)) = trace w)"
  using field_list_Nil [of m nf] by (auto simp: ScanWithMappedFields_def)

theorem empty_scan_rejected_witness:
  "field_list (Some []) \<lparr>Names = [''f1''], Fields = [FieldAddr (Var 0) [0]]\<rparr> = Inr [] \<and>
   ScanWithMappedFields rowMock (Some []) \<lparr>Names = [''f1''], Fields = [FieldAddr (Var 0) [0]]\<rparr>
     (world0 \<lparr>rm_columns = None, rm_values = [''v1''], rm_colerr = None\<rparr>)
   = (Some EmptyFieldList, world0 \<lparr>rm_columns = None, rm_values = [''v1''], rm_colerr = None\<rparr>) \<and>
   field_list None \<lparr>Names = [], Fields = []\<rparr> = Inr [] \<and>
   ScanWithMappedFields rowMock None \<lparr>Names = [], Fields = []\<rparr>
     (world0 \<lparr>rm_columns = None, rm_values = [''v1''], rm_colerr = None\<rparr>)
   = (Some EmptyFieldList, world0 \<lparr>rm_columns = None, rm_values = [''v1''], rm_colerr = None\<rparr>)"
  using empty_scan_rejected [of "Some []" "\<lparr>Names = [''f1''], Fields = [FieldAddr (Var 0) [0]]\<rparr>"
      rowMock "world0 \<lparr>rm_columns = None, rm_values = [''v1''], rm_colerr = None\<rparr>"]
    empty_scan_rejected [of None "\<lparr>Names = [], Fields = []\<rparr>"
      rowMock "world0 \<lparr>rm_columns = None, rm_values = [''v1''], rm_colerr = None\<rparr>"]
  by (simp add: field_list_def)

text \<open>
  C7. With an empty list of targets \<open>BuildNamedFields\<close> fails with "empty output object
  list", and so do \<open>QuickScan\<close>, \<open>Scan\<close> and \<open>ScanWithMap\<close>; the state returned is
  the state given, for every row source and every state of it, so no method of the row
  source has been called.
\<close>

theorem empty_target_list_fails:
  "BuildNamedFields c [] w = (Inl EmptyOutputObjectList, w) \<and>
   QuickScan c [] w = (Some EmptyOutputObjectList, w) \<and>
   Scan c [] w = (Some EmptyOutputObjectList, w) \<and>
   ScanWithMap c m [] w = (Some EmptyOutputObjectList, w)"
  by (simp add: BuildNamedFields_def QuickScan_def Scan_def ScanWithMap_def)

section \<open>The nested scan computes the Position Map\<close>

lemma scanColumns_from:
  assumes "columns = pre @ cs" "length pre = j" "length out = length columns"
  shows "scanColumns n i j cs out =
     Inr (case [k \<leftarrow> [j..<length columns]. out ! k = - 1 \<and> columns ! k = n] of
            [] \<Rightarrow> out | k # _ \<Rightarrow> out[k := i])"
  using assms
proof (induction cs arbitrary: j pre)
  case Nil
  then show ?case by simp
next
  case (Cons c cs)
  have j: "j < length columns" using Cons.prems by simp
  have c: "columns ! j = c" using Cons.prems by (simp add: nth_append)
  have up: "[j..<length columns] = j # [Suc j..<length columns]"
    using j by (simp add: upt_conv_Cons)
  have ih: "scanColumns n i (Suc j) cs out =
     Inr (case [k \<leftarrow> [Suc j..<length columns]. out ! k = - 1 \<and> columns ! k = n] of
            [] \<Rightarrow> out | k # _ \<Rightarrow> out[k := i])"
    using Cons.IH [of "pre @ [c]" "Suc j"] Cons.prems by simp
  show ?case
    using j c Cons.prems(3) by (simp add: up ih)
qed

lemma scanColumns_claimLeftmost:
  "length out = length columns \<Longrightarrow>
   scanColumns n i 0 columns out = Inr (claimLeftmost columns out n i)"
  using scanColumns_from [of columns "[]" columns 0 out n i]
  by (simp add: claimLeftmost_def unclaimed_def)

lemma length_claimLeftmost [simp]: "length (claimLeftmost columns out n i) = length out"
  by (simp add: claimLeftmost_def split: list.splits)

lemma MainLoop_claimAll:
  "length out = length columns \<Longrightarrow>
   MainLoop i names columns out = Inr (claimAll columns i names out)"
  by (induction names arbitrary: i out) (simp_all add: scanColumns_claimLeftmost)

lemma nestedStrategy_positionMap:
  "nestedStrategy columns names (replicate (length columns) (- 1)) = Inr (positionMap columns names)"
  by (simp add: nestedStrategy_def positionMap_def MainLoop_claimAll)

lemma filter_upt_Cons:
  "filter P [0..<m] = j # rest \<Longrightarrow> j < m \<and> P j \<and> (\<forall>k<j. \<not> P k)"
proof (induction m arbitrary: rest)
  case 0
  then show ?case by simp
next
  case (Suc m)
  show ?case
  proof (cases "filter P [0..<m]")
    case Nil
    then have none: "\<forall>k<m. \<not> P k" by (auto simp: filter_empty_conv)
    have "P m \<and> j = m" using Suc.prems Nil by (auto split: if_splits)
    then show ?thesis using none by simp
  next
    case (Cons j' rest')
    then have "j' = j" using Suc.prems by (auto split: if_splits)
    then show ?thesis using Suc.IH [of rest'] Cons by auto
  qed
qed

lemma unclaimed_Cons:
  "unclaimed columns out n = j # rest \<Longrightarrow>
   j < length columns \<and> out ! j = - 1 \<and> columns ! j = n \<and>
   (\<forall>k<j. \<not> (out ! k = - 1 \<and> columns ! k = n))"
  unfolding unclaimed_def by (drule filter_upt_Cons) simp

lemma unclaimed_Nil:
  "unclaimed columns out n = [] \<Longrightarrow> \<forall>k<length columns. \<not> (out ! k = - 1 \<and> columns ! k = n)"
  unfolding unclaimed_def by (auto simp: filter_empty_conv)

lemma matched_start: "matched columns names 0 (replicate (length columns) (- 1))"
  by (simp add: matched_def)

lemma matched_step:
  assumes inv: "matched columns names t out"
  shows "matched columns names (Suc t) (claimLeftmost columns out (names ! t) (int t))"
proof (cases "unclaimed columns out (names ! t)")
  case Nil
  have len: "length out = length columns"
    and cov: "\<And>j. j < length columns \<Longrightarrow> out ! j = - 1 \<or> (\<exists>i<t. out ! j = int i)"
    and cl: "\<And>i j. i < t \<Longrightarrow> j < length columns \<Longrightarrow> out ! j = int i \<longleftrightarrow> claims columns names out i j"
    using inv by (auto simp: matched_def)
  have same: "claimLeftmost columns out (names ! t) (int t) = out"
    using Nil by (simp add: claimLeftmost_def)
  have none: "\<And>k. k < length columns \<Longrightarrow> \<not> (out ! k = - 1 \<and> columns ! k = names ! t)"
    using unclaimed_Nil [OF Nil] by blast
  have new: "out ! j = int t \<longleftrightarrow> claims columns names out t j" if j: "j < length columns" for j
  proof
    assume "out ! j = int t"
    then show "claims columns names out t j" using cov [OF j] by auto
  next
    assume c: "claims columns names out t j"
    then have "out ! j = - 1" using cov [OF j] by (auto simp: claims_def)
    moreover have "columns ! j = names ! t" using c by (simp add: claims_def)
    ultimately show "out ! j = int t" using none [OF j] by simp
  qed
  show ?thesis
    unfolding same matched_def
  proof (intro conjI allI impI)
    show "length out = length columns" by (rule len)
  next
    fix j assume "j < length columns"
    then show "out ! j = - 1 \<or> (\<exists>i<Suc t. out ! j = int i)"
      using cov less_Suc_eq by blast
  next
    fix i j assume i: "i < Suc t" and j: "j < length columns"
    show "out ! j = int i \<longleftrightarrow> claims columns names out i j"
    proof (cases "i = t")
      case True
      then show ?thesis using new [OF j] by simp
    next
      case False
      then have "i < t" using i by simp
      then show ?thesis using cl j by simp
    qed
  qed
next
  case (Cons j0 rest)
  have len: "length out = length columns"
    and cov: "\<And>j. j < length columns \<Longrightarrow> out ! j = - 1 \<or> (\<exists>i<t. out ! j = int i)"
    and cl: "\<And>i j. i < t \<Longrightarrow> j < length columns \<Longrightarrow> out ! j = int i \<longleftrightarrow> claims columns names out i j"
    using inv by (auto simp: matched_def)
  let ?out = "out[j0 := int t]"
  have upd: "claimLeftmost columns out (names ! t) (int t) = ?out"
    using Cons by (simp add: claimLeftmost_def)
  have j0: "j0 < length columns" and free: "out ! j0 = - 1" and name: "columns ! j0 = names ! t"
    and left: "\<And>k. k < j0 \<Longrightarrow> \<not> (out ! k = - 1 \<and> columns ! k = names ! t)"
    using unclaimed_Cons [OF Cons] by auto
  have at: "?out ! j0 = int t" using j0 len by simp
  have off: "\<And>j. j \<noteq> j0 \<Longrightarrow> ?out ! j = out ! j" by simp
  have keep: "?out ! j = int i \<longleftrightarrow> out ! j = int i" if "i < t" for i j
    using that at free off by (cases "j = j0") auto
  have old: "claims columns names ?out i j \<longleftrightarrow> claims columns names out i j" if "i < t" for i j
  proof -
    have "?out ! k = int i' \<longleftrightarrow> out ! k = int i'" if "i' < i" for i' k
      using keep [of i' k] that \<open>i < t\<close> by simp
    then show ?thesis unfolding claims_def by (simp cong: conj_cong)
  qed
  have new: "?out ! j = int t \<longleftrightarrow> claims columns names ?out t j" if j: "j < length columns" for j
  proof
    assume a: "?out ! j = int t"
    have "j = j0"
    proof (rule ccontr)
      assume "j \<noteq> j0"
      then have "out ! j = int t" using a off by simp
      then show False using cov [OF j] by auto
    qed
    moreover have "claims columns names ?out t j0"
      unfolding claims_def
    proof (intro conjI allI impI)
      show "columns ! j0 = names ! t" by (rule name)
    next
      fix i' assume "i' < t"
      then show "?out ! j0 \<noteq> int i'" using at by simp
    next
      fix j' assume lt: "j' < j0" and nm: "columns ! j' = names ! t"
      then have "out ! j' \<noteq> - 1" using left by blast
      moreover have "j' < length columns" using lt j0 by simp
      ultimately obtain i' where "i' < t" "out ! j' = int i'" using cov by blast
      moreover have "?out ! j' = out ! j'" using lt off by simp
      ultimately show "\<exists>i'<t. ?out ! j' = int i'" by auto
    qed
    ultimately show "claims columns names ?out t j" by simp
  next
    assume c: "claims columns names ?out t j"
    have "j = j0"
    proof (rule ccontr)
      assume ne: "j \<noteq> j0"
      have "\<forall>i'<t. out ! j \<noteq> int i'" using c keep by (auto simp: claims_def)
      then have fr: "out ! j = - 1" using cov [OF j] by auto
      have nm: "columns ! j = names ! t" using c by (simp add: claims_def)
      have "\<not> j < j0" using left fr nm by blast
      then have "j0 < j" using ne by simp
      then obtain i' where "i' < t" "?out ! j0 = int i'"
        using c name by (auto simp: claims_def)
      then show False using at by simp
    qed
    then show "?out ! j = int t" using at by simp
  qed
  show ?thesis
    unfolding upd matched_def
  proof (intro conjI allI impI)
    show "length ?out = length columns" using len by simp
  next
    fix j assume j: "j < length columns"
    show "?out ! j = - 1 \<or> (\<exists>i<Suc t. ?out ! j = int i)"
    proof (cases "j = j0")
      case True
      then show ?thesis using at by auto
    next
      case False
      then show ?thesis using cov [OF j] off less_Suc_eq by auto
    qed
  next
    fix i j assume i: "i < Suc t" and j: "j < length columns"
    show "?out ! j = int i \<longleftrightarrow> claims columns names ?out i j"
    proof (cases "i = t")
      case True
      then show ?thesis using new [OF j] by simp
    next
      case False
      then have "i < t" using i by simp
      then show ?thesis using cl [of i j] keep [of i j] old [of i j] j by simp
    qed
  qed
qed

lemma matched_claimAll:
  assumes "names = pre @ suf" "matched columns names (length pre) out"
  shows "matched columns names (length names) (claimAll columns (int (length pre)) suf out)"
  using assms
proof (induction suf arbitrary: pre out)
  case Nil
  then show ?case by simp
next
  case (Cons n suf)
  have n: "names ! length pre = n" using Cons.prems(1) by simp
  have "matched columns names (Suc (length pre)) (claimLeftmost columns out n (int (length pre)))"
    using matched_step [OF Cons.prems(2)] n by simp
  then have "matched columns names (length names)
      (claimAll columns (int (length (pre @ [n]))) suf (claimLeftmost columns out n (int (length pre))))"
    using Cons.IH [of "pre @ [n]"] Cons.prems(1) by simp
  then show ?case by (simp add: add.commute)
qed

lemma matched_positionMap: "matched columns names (length names) (positionMap columns names)"
  unfolding positionMap_def
  using matched_claimAll [of names "[]" names columns] matched_start by simp

lemma positionMap_unmatched:
  assumes "i < length names" "names ! i \<notin> set columns"
  shows "int i \<notin> set (positionMap columns names)"
proof
  assume "int i \<in> set (positionMap columns names)"
  then obtain j where j: "j < length (positionMap columns names)"
    and at: "positionMap columns names ! j = int i"
    by (auto simp: in_set_conv_nth)
  have m: "matched columns names (length names) (positionMap columns names)"
    by (rule matched_positionMap)
  then have jl: "j < length columns" using j by (simp add: matched_def)
  then have "claims columns names (positionMap columns names) i j"
    using m at assms(1) by (simp add: matched_def)
  then have "columns ! j = names ! i" by (simp add: claims_def)
  then show False using assms(2) jl by (metis nth_mem)
qed

section \<open>The bucket strategy computes the Position Map\<close>

lemma chain_bound: "chain h p as \<Longrightarrow> a \<in> set as \<Longrightarrow> a < length h"
  by (induction as arbitrary: p) auto

lemma chain_frame:
  "chain h p as \<Longrightarrow> length h \<le> length h' \<Longrightarrow> (\<And>a. a \<in> set as \<Longrightarrow> nxt (h' ! a) = nxt (h ! a))
   \<Longrightarrow> chain h' p as"
  by (induction as arbitrary: p) auto

lemma chain_snoc:
  "chain h p (as @ [e]) \<Longrightarrow> length h \<le> length h' \<Longrightarrow> x < length h' \<Longrightarrow>
   (\<And>a. a \<in> set as \<Longrightarrow> nxt (h' ! a) = nxt (h ! a)) \<Longrightarrow>
   nxt (h' ! e) = Some x \<Longrightarrow> nxt (h' ! x) = None \<Longrightarrow>
   chain h' p (as @ [e, x])"
  by (induction as arbitrary: p) auto

lemma queue_frame:
  assumes "queue h p as" "length h \<le> length h'" "\<And>a. a \<in> set as \<Longrightarrow> h' ! a = h ! a"
  shows "queue h' p as"
proof -
  have "chain h' p as"
    using assms by (auto simp: queue_def intro: chain_frame)
  moreover have "as \<noteq> [] \<Longrightarrow> endp (h' ! hd as) = Some (last as)"
    using assms by (auto simp: queue_def)
  ultimately show ?thesis using assms(1) by (simp add: queue_def)
qed

lemma index_upd_endp [simp]: "index (h[k := (h ! k)\<lparr>endp := v\<rparr>] ! b) = index (h ! b)"
  by (cases "k < length h"; cases "b = k") (simp_all add: list_update_beyond)

lemma nxt_upd_endp [simp]: "nxt (h[k := (h ! k)\<lparr>endp := v\<rparr>] ! b) = nxt (h ! b)"
  by (cases "k < length h"; cases "b = k") (simp_all add: list_update_beyond)

lemma index_upd_nxt [simp]: "index (h[k := (h ! k)\<lparr>nxt := v\<rparr>] ! b) = index (h ! b)"
  by (cases "k < length h"; cases "b = k") (simp_all add: list_update_beyond)

lemma nxt_upd_nxt:
  "k < length h \<Longrightarrow> nxt (h[k := (h ! k)\<lparr>nxt := v\<rparr>] ! b) = (if b = k then v else nxt (h ! b))"
  by (cases "b = k") simp_all

lemma add_queue:
  assumes q: "queue h p as"
  shows "\<exists>h' p'. add h p i = Inr (h', p') \<and> queue h' p' (as @ [length h]) \<and>
           length h' = Suc (length h) \<and> index (h' ! length h) = i \<and>
           (\<forall>a<length h. index (h' ! a) = index (h ! a)) \<and>
           (\<forall>a<length h. a \<notin> set as \<longrightarrow> h' ! a = h ! a)"
proof (cases as rule: rev_cases)
  case Nil
  then have "p = None" using q by (simp add: queue_def)
  then show ?thesis using Nil
    by (simp add: add_def queue_def nth_append Let_def)
next
  case (snoc pre e)
  let ?x = "length h"
  have ch: "chain h p (pre @ [e])" and dist: "distinct (pre @ [e])"
    and en: "endp (h ! hd (pre @ [e])) = Some e"
    using q snoc by (auto simp: queue_def)
  obtain a where p: "p = Some a" and a_hd: "a = hd (pre @ [e])" and a_lt: "a < ?x"
    using ch by (cases pre) auto
  have e_lt: "e < ?x" using chain_bound [OF ch, of e] by simp
  have bound: "\<And>b. b \<in> set (pre @ [e]) \<Longrightarrow> b < ?x" using chain_bound [OF ch] by blast
  let ?h1 = "h @ [\<lparr>index = i, nxt = None, endp = None\<rparr>]"
  let ?h2 = "?h1[e := (?h1 ! e)\<lparr>nxt := Some ?x\<rparr>]"
  let ?h3 = "?h2[a := (?h2 ! a)\<lparr>endp := nxt (?h2 ! e)\<rparr>]"
  have res: "add h p i = Inr (?h3, Some a)"
    using p a_lt e_lt en a_hd by (simp add: add_def Let_def)
  have len3: "length ?h3 = Suc ?x" by simp
  have nxt3: "nxt (?h3 ! b) = (if b = e then Some ?x else nxt (?h1 ! b))" for b
    using e_lt by (simp add: nxt_upd_nxt)
  have nxt_e: "nxt (?h2 ! e) = Some ?x" using e_lt by simp
  have endp3: "endp (?h3 ! a) = Some ?x" using a_lt nxt_e by simp
  have idx3: "index (?h3 ! b) = index (?h1 ! b)" for b
    by simp
  have same3: "?h3 ! b = h ! b" if "b < ?x" "b \<notin> set as" for b
  proof -
    have "b \<noteq> e" "b \<noteq> a" using that snoc a_hd by (auto simp: hd_append split: if_splits)
    then show ?thesis using that by (simp add: nth_append)
  qed
  have "chain ?h3 p (pre @ [e, ?x])"
  proof (rule chain_snoc [OF ch])
    show "length h \<le> length ?h3" by simp
    show "?x < length ?h3" by simp
    show "nxt (?h3 ! b) = nxt (h ! b)" if "b \<in> set pre" for b
    proof -
      have "b \<noteq> e" using dist that by auto
      moreover have "b < ?x" using bound that by simp
      ultimately show ?thesis using nxt3 [of b] by (simp add: nth_append)
    qed
    show "nxt (?h3 ! e) = Some ?x" using nxt3 [of e] e_lt by simp
    show "nxt (?h3 ! ?x) = None" using nxt3 [of ?x] e_lt by (simp add: nth_append)
  qed
  moreover have "distinct (as @ [?x])" using dist bound snoc by auto
  moreover have "hd (as @ [?x]) = a" using a_hd snoc by (simp add: hd_append)
  ultimately have "queue ?h3 (Some a) (as @ [?x])"
    using endp3 snoc p by (simp add: queue_def)
  moreover have "index (?h3 ! ?x) = i" using idx3 [of ?x] by (simp add: nth_append)
  moreover have "\<forall>b<?x. index (?h3 ! b) = index (h ! b)"
    using idx3 by (simp add: nth_append)
  ultimately show ?thesis using res len3 same3 by blast
qed

lemma yoink_queue:
  assumes q: "queue h p as"
  shows "\<exists>h' p'. yoink h p = Inr (h', (case as of [] \<Rightarrow> None | a # _ \<Rightarrow> Some (index (h ! a))), p') \<and>
           queue h' p' (tl as) \<and> length h' = length h \<and>
           (\<forall>a<length h. index (h' ! a) = index (h ! a)) \<and>
           (\<forall>a<length h. a \<notin> set as \<longrightarrow> h' ! a = h ! a)"
proof (cases as)
  case Nil
  then have "p = None" using q by (simp add: queue_def)
  then show ?thesis using Nil by (simp add: yoink_def queue_def)
next
  case (Cons a rest)
  have p: "p = Some a" and a_lt: "a < length h" and ch: "chain h (nxt (h ! a)) rest"
    and dist: "distinct (a # rest)" and en: "endp (h ! a) = Some (last (a # rest))"
    using q Cons by (auto simp: queue_def)
  show ?thesis
  proof (cases rest)
    case Nil
    then have "nxt (h ! a) = None" using ch by simp
    then show ?thesis using p a_lt en Nil Cons by (simp add: yoink_def queue_def)
  next
    case (Cons b rest')
    have nb: "nxt (h ! a) = Some b" and b_lt: "b < length h" using ch Cons by auto
    have last: "last (a # rest) = last rest" using Cons by simp
    have "last rest \<in> set rest" using Cons by (metis last_in_set list.distinct(1))
    then have ne: "last rest \<noteq> a" using dist by auto
    let ?h1 = "h[b := (h ! b)\<lparr>endp := endp (h ! a)\<rparr>]"
    have res: "yoink h p = Inr (?h1, Some (index (?h1 ! a)), nxt (?h1 ! a))"
      using p a_lt en last ne nb b_lt by (simp add: yoink_def Let_def)
    have ab: "a \<noteq> b" using dist Cons by auto
    have idx: "index (?h1 ! c) = index (h ! c)" if "c < length h" for c
      by simp
    have nx: "nxt (?h1 ! c) = nxt (h ! c)" if "c < length h" for c
      by simp
    have "chain ?h1 (Some b) rest"
      using ch nb chain_bound [OF ch] nx by (auto intro!: chain_frame [of h _ rest ?h1])
    moreover have "endp (?h1 ! hd rest) = Some (last rest)"
      using Cons b_lt en last by simp
    ultimately have "queue ?h1 (Some b) rest" using dist by (simp add: queue_def)
    moreover have "nxt (?h1 ! a) = Some b" using nx [OF a_lt] nb by simp
    moreover have "index (?h1 ! a) = index (h ! a)" using idx [OF a_lt] .
    moreover have "\<forall>c<length h. c \<notin> set as \<longrightarrow> ?h1 ! c = h ! c"
      using \<open>as = a # rest\<close> Cons by auto
    ultimately show ?thesis using res idx \<open>as = a # rest\<close> by simp
  qed
qed

lemma queue_bound: "queue h p as \<Longrightarrow> a \<in> set as \<Longrightarrow> a < length h"
  by (auto simp: queue_def dest: chain_bound)

lemma buckets_add:
  assumes b: "buckets h m A"
  shows "\<exists>h' p'. add h (m c) i = Inr (h', p') \<and>
           buckets h' (m(c := p')) (A(c := A c @ [length h])) \<and>
           (\<forall>n. contents h' ((A(c := A c @ [length h])) n) =
                 contents h (A n) @ (if c = n then [i] else []))"
proof -
  have q: "\<And>n. queue h (m n) (A n)"
    and dj: "\<And>n n'. n \<noteq> n' \<Longrightarrow> set (A n) \<inter> set (A n') = {}"
    using b by (auto simp: buckets_def)
  have bound: "\<And>n a. a \<in> set (A n) \<Longrightarrow> a < length h"
    using q queue_bound by blast
  obtain h' p' where res: "add h (m c) i = Inr (h', p')"
    and q': "queue h' p' (A c @ [length h])" and len: "length h' = Suc (length h)"
    and new: "index (h' ! length h) = i"
    and idx: "\<And>a. a < length h \<Longrightarrow> index (h' ! a) = index (h ! a)"
    and same: "\<And>a. a < length h \<Longrightarrow> a \<notin> set (A c) \<Longrightarrow> h' ! a = h ! a"
    using add_queue [OF q [of c], of i] by blast
  let ?A = "A(c := A c @ [length h])"
  have "queue h' ((m(c := p')) n) (?A n)" for n
  proof (cases "n = c")
    case True
    then show ?thesis using q' by simp
  next
    case False
    have "queue h' (m n) (A n)"
    proof (rule queue_frame [OF q [of n]])
      show "length h \<le> length h'" using len by simp
      fix a assume a: "a \<in> set (A n)"
      then have "a \<notin> set (A c)" using dj [OF False] by auto
      then show "h' ! a = h ! a" using same bound [OF a] by simp
    qed
    then show ?thesis using False by simp
  qed
  moreover have "set (?A n) \<inter> set (?A n') = {}" if "n \<noteq> n'" for n n'
    using dj [OF that] bound [of "length h"] that by (auto simp: disjoint_iff)
  moreover have "contents h' (?A n) = contents h (A n) @ (if c = n then [i] else [])" for n
    using idx new bound by (auto simp: contents_def)
  ultimately show ?thesis using res unfolding buckets_def by blast
qed

lemma fillBuckets_buckets:
  assumes "buckets h m A"
  shows "\<exists>h' m' A'. fillBuckets h m i cs = Inr (h', m') \<and> buckets h' m' A' \<and>
           (\<forall>n. contents h' (A' n) = contents h (A n) @ positions n i cs)"
  using assms
proof (induction cs arbitrary: h m A i)
  case Nil
  then show ?case by auto
next
  case (Cons c cs)
  obtain h1 p1 where res: "add h (m c) i = Inr (h1, p1)"
    and b1: "buckets h1 (m(c := p1)) (A(c := A c @ [length h]))"
    and c1: "\<And>n. contents h1 ((A(c := A c @ [length h])) n) =
                 contents h (A n) @ (if c = n then [i] else [])"
    using buckets_add [OF Cons.prems, of c i] by blast
  obtain h' m' A' where r: "fillBuckets h1 (m(c := p1)) (i + 1) cs = Inr (h', m')"
    and b': "buckets h' m' A'"
    and c': "\<And>n. contents h' (A' n) =
                 contents h1 ((A(c := A c @ [length h])) n) @ positions n (i + 1) cs"
    using Cons.IH [OF b1, of "i + 1"] by blast
  have "fillBuckets h m i (c # cs) = Inr (h', m')" using res r by simp
  moreover have "\<forall>n. contents h' (A' n) = contents h (A n) @ positions n i (c # cs)"
    using c' c1 by simp
  ultimately show ?case using b' by blast
qed

lemma buckets_empty: "buckets [] (\<lambda>_. None) (\<lambda>_. [])"
  by (simp add: buckets_def queue_def)

lemma positions_filter:
  "positions n i cs = map (\<lambda>k. i + int k) [k \<leftarrow> [0..<length cs]. cs ! k = n]"
proof (induction cs arbitrary: i)
  case Nil
  then show ?case by simp
next
  case (Cons c cs)
  have up: "[0..<length (c # cs)] = 0 # map Suc [0..<length cs]"
    by (simp add: upt_conv_Cons map_Suc_upt del: upt_Suc)
  show ?case
    unfolding up by (simp add: Cons.IH filter_map comp_def)
qed

lemma unclaimed_fresh:
  "unclaimed columns (replicate (length columns) (- 1)) n = [k \<leftarrow> [0..<length columns]. columns ! k = n]"
  unfolding unclaimed_def by (rule filter_cong) auto

lemma filter_upt_drop_first:
  assumes "filter P [0..<m] = j # rest"
  shows "filter (\<lambda>k. k \<noteq> j \<and> P k) [0..<m] = rest"
proof -
  from assms obtain us vs where
    split: "[0..<m] = us @ j # vs" and no: "\<forall>u\<in>set us. \<not> P u" and rest: "rest = filter P vs"
    by (auto simp: filter_eq_Cons_iff)
  have "distinct (us @ j # vs)" using split by (metis distinct_upt)
  then have "j \<notin> set vs" by simp
  then have "filter (\<lambda>k. k \<noteq> j \<and> P k) vs = filter P vs"
    by (intro filter_cong) auto
  moreover have "filter (\<lambda>k. k \<noteq> j \<and> P k) us = []"
    using no by (auto simp: filter_empty_conv)
  ultimately show ?thesis unfolding split rest by simp
qed

lemma unclaimed_update_same:
  assumes "unclaimed columns out n = j # rest" "i \<noteq> - 1" "length out = length columns"
  shows "unclaimed columns (out[j := i]) n = rest"
proof -
  have pt: "(out[j := i] ! k = - 1 \<and> columns ! k = n) \<longleftrightarrow>
      (k \<noteq> j \<and> (out ! k = - 1 \<and> columns ! k = n))" if "k < length columns" for k
    using that assms(2,3) by (cases "k = j") simp_all
  have "unclaimed columns (out[j := i]) n =
      filter (\<lambda>k. k \<noteq> j \<and> (out ! k = - 1 \<and> columns ! k = n)) [0..<length columns]"
    unfolding unclaimed_def by (rule filter_cong) (simp_all add: pt)
  then show ?thesis
    using filter_upt_drop_first [OF assms(1) [unfolded unclaimed_def]] by simp
qed

lemma unclaimed_update_other:
  assumes "columns ! j \<noteq> n'"
  shows "unclaimed columns (out[j := i]) n' = unclaimed columns out n'"
proof -
  have pt: "(out[j := i] ! k = - 1 \<and> columns ! k = n') \<longleftrightarrow> (out ! k = - 1 \<and> columns ! k = n')" for k
    using assms by (cases "k = j") simp_all
  show ?thesis unfolding unclaimed_def by (simp add: pt)
qed

lemma set_tl_subset: "x \<in> set (tl xs) \<Longrightarrow> x \<in> set xs"
  by (cases xs) simp_all

lemma buckets_yoink:
  assumes b: "buckets h m A"
  shows "\<exists>h' p'. yoink h (m n) = Inr (h', (case contents h (A n) of [] \<Rightarrow> None | j # _ \<Rightarrow> Some j), p') \<and>
           buckets h' (m(n := p')) (A(n := tl (A n))) \<and>
           (\<forall>n'. contents h' ((A(n := tl (A n))) n') =
                  (if n' = n then tl (contents h (A n)) else contents h (A n')))"
proof -
  have q: "\<And>n. queue h (m n) (A n)"
    and dj: "\<And>n n'. n \<noteq> n' \<Longrightarrow> set (A n) \<inter> set (A n') = {}"
    using b by (auto simp: buckets_def)
  have bound: "\<And>n a. a \<in> set (A n) \<Longrightarrow> a < length h"
    using q queue_bound by blast
  obtain h' p' where
    res: "yoink h (m n) = Inr (h', (case A n of [] \<Rightarrow> None | a # _ \<Rightarrow> Some (index (h ! a))), p')"
    and q': "queue h' p' (tl (A n))" and len: "length h' = length h"
    and idx: "\<And>a. a < length h \<Longrightarrow> index (h' ! a) = index (h ! a)"
    and same: "\<And>a. a < length h \<Longrightarrow> a \<notin> set (A n) \<Longrightarrow> h' ! a = h ! a"
    using yoink_queue [OF q [of n]] by blast
  let ?A = "A(n := tl (A n))"
  have hd: "(case A n of [] \<Rightarrow> None | a # _ \<Rightarrow> Some (index (h ! a))) =
      (case contents h (A n) of [] \<Rightarrow> None | j # _ \<Rightarrow> Some j)"
    by (cases "A n") (simp_all add: contents_def)
  have "queue h' ((m(n := p')) n') (?A n')" for n'
  proof (cases "n' = n")
    case True
    then show ?thesis using q' by simp
  next
    case False
    have "queue h' (m n') (A n')"
    proof (rule queue_frame [OF q [of n']])
      show "length h \<le> length h'" using len by simp
      fix a assume a: "a \<in> set (A n')"
      then have "a \<notin> set (A n)" using dj [OF False] by auto
      then show "h' ! a = h ! a" using same bound [OF a] by simp
    qed
    then show ?thesis using False by simp
  qed
  moreover have "set (?A k) \<inter> set (?A k') = {}" if "k \<noteq> k'" for k k'
    using dj [OF that] by (auto simp: disjoint_iff dest: set_tl_subset)
  moreover have "contents h' (?A n') =
      (if n' = n then tl (contents h (A n)) else contents h (A n'))" for n'
  proof -
    have eq: "contents h' (A k) = contents h (A k)" for k
      using idx bound by (auto simp: contents_def)
    have "contents h' (tl (A n)) = tl (contents h' (A n))"
      by (simp add: contents_def map_tl)
    then show ?thesis using eq by simp
  qed
  ultimately show ?thesis using res hd unfolding buckets_def by auto
qed

lemma drainBuckets_claimAll:
  assumes "buckets h m A" "length out = length columns" "0 \<le> i"
    "\<forall>n. contents h (A n) = map int (unclaimed columns out n)"
  shows "drainBuckets h m out i names = Inr (claimAll columns i names out)"
  using assms
proof (induction names arbitrary: h m A out i)
  case Nil
  then show ?case by simp
next
  case (Cons n ns)
  obtain h' p' where
    res: "yoink h (m n) = Inr (h', (case contents h (A n) of [] \<Rightarrow> None | j # _ \<Rightarrow> Some j), p')"
    and b': "buckets h' (m(n := p')) (A(n := tl (A n)))"
    and c': "\<And>n'. contents h' ((A(n := tl (A n))) n') =
                  (if n' = n then tl (contents h (A n)) else contents h (A n'))"
    using buckets_yoink [OF Cons.prems(1), of n] by blast
  have cn: "contents h (A n) = map int (unclaimed columns out n)"
    using Cons.prems(4) by simp
  show ?case
  proof (cases "unclaimed columns out n")
    case Nil
    have same: "claimLeftmost columns out n i = out" using Nil by (simp add: claimLeftmost_def)
    have inv: "\<forall>n'. contents h' ((A(n := tl (A n))) n') = map int (unclaimed columns out n')"
      using c' cn Nil Cons.prems(4) by simp
    have i1: "0 \<le> i + 1" using Cons.prems(3) by simp
    have "drainBuckets h' (m(n := p')) out (i + 1) ns = Inr (claimAll columns (i + 1) ns out)"
      by (rule Cons.IH [OF b' Cons.prems(2) i1 inv])
    then show ?thesis using res cn Nil same by simp
  next
    case (Cons j rest)
    have j: "j < length columns" and nm: "columns ! j = n"
      using unclaimed_Cons [OF Cons] by auto
    have upd: "claimLeftmost columns out n i = out[j := i]"
      using Cons by (simp add: claimLeftmost_def)
    have ne: "i \<noteq> - 1" using Cons.prems(3) by simp
    have inv: "\<forall>n'. contents h' ((A(n := tl (A n))) n') = map int (unclaimed columns (out[j := i]) n')"
    proof
      fix n'
      show "contents h' ((A(n := tl (A n))) n') = map int (unclaimed columns (out[j := i]) n')"
      proof (cases "n' = n")
        case True
        then show ?thesis
          using c' [of n'] cn Cons unclaimed_update_same [OF Cons ne Cons.prems(2)] by simp
      next
        case False
        then have "columns ! j \<noteq> n'" using nm by simp
        then show ?thesis
          using c' [of n'] False Cons.prems(4) unclaimed_update_other [of columns j n' out i] by simp
      qed
    qed
    have i1: "0 \<le> i + 1" using Cons.prems(3) by simp
    have len: "length (out[j := i]) = length columns" using Cons.prems(2) by simp
    have "drainBuckets h' (m(n := p')) (out[j := i]) (i + 1) ns =
        Inr (claimAll columns (i + 1) ns (out[j := i]))"
      by (rule Cons.IH [OF b' len i1 inv])
    then show ?thesis using res cn Cons upd j Cons.prems(2) by simp
  qed
qed

lemma bucketStrategy_positionMap:
  "bucketStrategy columns names (replicate (length columns) (- 1)) = Inr (positionMap columns names)"
proof -
  obtain h m A where fill: "fillBuckets [] (\<lambda>_. None) 0 columns = Inr (h, m)"
    and b: "buckets h m A"
    and c: "\<And>n. contents h (A n) = contents [] [] @ positions n 0 columns"
    using fillBuckets_buckets [OF buckets_empty, of 0 columns] by auto
  have "\<forall>n. contents h (A n) = map int (unclaimed columns (replicate (length columns) (- 1)) n)"
    using c by (simp add: contents_def positions_filter unclaimed_fresh)
  then have "drainBuckets h m (replicate (length columns) (- 1)) 0 names =
      Inr (claimAll columns 0 names (replicate (length columns) (- 1)))"
    using drainBuckets_claimAll [OF b, of "replicate (length columns) (- 1)" columns 0 names] by simp
  then show ?thesis using fill by (simp add: bucketStrategy_def positionMap_def)
qed

lemma buildMapFrom_positionMap:
  "buildMapFrom (Some columns, None) nf = Inr (Some (positionMap columns (Names nf)))"
  by (simp add: buildMapFrom_def Let_def bucketStrategy_positionMap nestedStrategy_positionMap)

text \<open>
  The case "names-huge" of \<open>Test_BuildMap\<close>, where the bucket strategy is the one chosen.
\<close>

lemma names_huge: "useBuckets 18 17 \<and> bucketStrategy [''12'', ''13'', ''4'', ''10'', ''7'', ''1'', ''x'', ''14'', ''9'', ''3'', ''6'', ''y'', ''15'', ''11'', ''2'', ''5'', ''0'', ''8'']
   [''0'', ''1'', ''2'', ''3'', ''4'', ''5'', ''6'', ''7'', ''8'', ''9'', ''10'', ''11'', ''12'', ''13'', ''14'', ''15'', ''missing''] (replicate 18 (- 1))
   = Inr [12, 13, 4, 10, 7, 1, - 1, 14, 9, 3, 6, - 1, 15, 11, 2, 5, 0, 8]"
  by code_simp

text \<open>
  C1. When \<open>ColumnTypes\<close> answers a column list, \<open>BuildMap\<close> returns, without error,
  the Position Map of the columns and the field names. In that map, which has one entry
  for each column, every entry is \<open>-1\<close> or the index of a field; the entry of column
  \<open>j\<close> is the field \<open>i\<close> exactly when \<open>j\<close> is the leftmost column of the field's name
  that no earlier field has claimed; and a field whose name is no column's appears nowhere
  in the map. Fields \<open>a, a\<close> against columns \<open>a, a\<close> give \<open>[0, 1]\<close>, and the field
  \<open>a\<close> against them gives \<open>[0, -1]\<close>.
\<close>

theorem BuildMap_pairs_in_order:
  "(columnTypesM adv (src w) = ((Some columns, None), s') \<longrightarrow>
      BuildMap adv nf w =
        (Inr (Some (positionMap columns (Names nf))),
         w\<lparr>src := s', trace := trace w @ [EvColumnTypes]\<rparr>)) \<and>
   length (positionMap columns names) = length columns \<and>
   (\<forall>j<length columns.
      positionMap columns names ! j = - 1 \<or>
      (\<exists>i<length names. positionMap columns names ! j = int i)) \<and>
   (\<forall>i<length names. \<forall>j<length columns.
      positionMap columns names ! j = int i \<longleftrightarrow>
      claims columns names (positionMap columns names) i j) \<and>
   (\<forall>i<length names. names ! i \<notin> set columns \<longrightarrow> int i \<notin> set (positionMap columns names)) \<and>
   positionMap [''a'', ''a''] [''a'', ''a''] = [0, 1] \<and>
   positionMap [''a'', ''a''] [''a''] = [0, - 1]"
proof -
  have m: "matched columns names (length names) (positionMap columns names)"
    by (rule matched_positionMap)
  have 1: "columnTypesM adv (src w) = ((Some columns, None), s') \<longrightarrow>
      BuildMap adv nf w =
        (Inr (Some (positionMap columns (Names nf))),
         w\<lparr>src := s', trace := trace w @ [EvColumnTypes]\<rparr>)"
    by (simp add: BuildMap_def callColumnTypes_def buildMapFrom_positionMap)
  have 2: "positionMap [''a'', ''a''] [''a'', ''a''] = [0, 1]"
    by (simp add: positionMap_def claimLeftmost_def unclaimed_def)
  have 3: "positionMap [''a'', ''a''] [''a''] = [0, - 1]"
    by (simp add: positionMap_def claimLeftmost_def unclaimed_def)
  show ?thesis
    using m 1 2 3 positionMap_unmatched [of _ names columns]
    unfolding matched_def by blast
qed

theorem BuildMap_pairs_in_order_witness:
  "columnTypesM rowMock (src (world0 \<lparr>rm_columns = Some [''a'', ''a''], rm_values = [], rm_colerr = None\<rparr>)) =
     ((Some [''a'', ''a''], None), \<lparr>rm_columns = Some [''a'', ''a''], rm_values = [], rm_colerr = None\<rparr>) \<and>
   fst (BuildMap rowMock \<lparr>Names = [''a''], Fields = [FieldAddr (Var 0) [0]]\<rparr>
     (world0 \<lparr>rm_columns = Some [''a'', ''a''], rm_values = [], rm_colerr = None\<rparr>)) = Inr (Some [0, - 1]) \<and>
   positionMap [''a'', ''b'', ''a''] [''b'', ''c'', ''a''] = [2, 0, - 1] \<and>
   (0 < length [''b'', ''c'', ''a''] \<and> 1 < length [''a'', ''b'', ''a''] \<and>
    (positionMap [''a'', ''b'', ''a''] [''b'', ''c'', ''a''] ! 1 = int 0 \<longleftrightarrow>
     claims [''a'', ''b'', ''a''] [''b'', ''c'', ''a''] (positionMap [''a'', ''b'', ''a''] [''b'', ''c'', ''a'']) 0 1)) \<and>
   (1 < length [''b'', ''c'', ''a''] \<and> [''b'', ''c'', ''a''] ! 1 \<notin> set [''a'', ''b'', ''a''] \<and>
    int 1 \<notin> set (positionMap [''a'', ''b'', ''a''] [''b'', ''c'', ''a'']))"
proof -
  let ?r = "\<lparr>rm_columns = Some [''a'', ''a''], rm_values = [], rm_colerr = None\<rparr>"
  let ?nf = "\<lparr>Names = [''a''], Fields = [FieldAddr (Var 0) [0]]\<rparr>"
  let ?cs = "[''a'', ''b'', ''a'']"
  let ?ns = "[''b'', ''c'', ''a'']"
  note t1 = BuildMap_pairs_in_order [of rowMock "world0 ?r" "[''a'', ''a'']" ?r ?nf]
  note t2 = BuildMap_pairs_in_order [of rowMock "world0 ?r" ?cs ?r ?nf ?ns]
  have h: "columnTypesM rowMock (src (world0 ?r)) = ((Some [''a'', ''a''], None), ?r)"
    by (simp add: rowMock_def world0_def)
  have e: "positionMap [''a'', ''a''] [''a''] = [0, - 1]" using t1 by blast
  have b: "fst (BuildMap rowMock ?nf (world0 ?r)) = Inr (Some [0, - 1])"
    using t1 h e by simp
  have p: "positionMap ?cs ?ns = [2, 0, - 1]"
    by (simp add: positionMap_def claimLeftmost_def unclaimed_def)
  note t2c = t2 [THEN conjunct2, THEN conjunct2, THEN conjunct2, THEN conjunct1, rule_format, of 0 1]
  note t2u = t2 [THEN conjunct2, THEN conjunct2, THEN conjunct2, THEN conjunct2, THEN conjunct1,
      rule_format, of 1]
  have c: "positionMap ?cs ?ns ! 1 = int 0 \<longleftrightarrow> claims ?cs ?ns (positionMap ?cs ?ns) 0 1"
    using t2c by simp
  have u: "int 1 \<notin> set (positionMap ?cs ?ns)"
    using t2u by simp
  show ?thesis using h b p c u by simp
qed

text \<open>
  C2. On every column list and every list of field names the bucket strategy and the
  nested scan return the same map, and neither fails; so \<open>BuildMap\<close> returns what
  either of them returns, whatever the test on the two lengths says.
\<close>

theorem strategies_agree:
  "bucketStrategy columns names (replicate (length columns) (- 1)) =
     nestedStrategy columns names (replicate (length columns) (- 1)) \<and>
   (\<exists>out. nestedStrategy columns names (replicate (length columns) (- 1)) = Inr out) \<and>
   buildMapFrom (Some columns, None) nf =
     (case nestedStrategy columns (Names nf) (replicate (length columns) (- 1)) of
        Inl e \<Rightarrow> Inl e | Inr out \<Rightarrow> Inr (Some out)) \<and>
   buildMapFrom (Some columns, None) nf =
     (case bucketStrategy columns (Names nf) (replicate (length columns) (- 1)) of
        Inl e \<Rightarrow> Inl e | Inr out \<Rightarrow> Inr (Some out))"
  by (simp add: bucketStrategy_positionMap nestedStrategy_positionMap buildMapFrom_positionMap)

section \<open>The wrapper of a one-row source\<close>

lemma Next_iter:
  "((\<lambda>s. snd (Next s)) ^^ Suc n) (WrapBasic inner) = \<lparr>Scannable = inner, doneFlag = True\<rparr>"
  by (induction n) (auto simp: Next_def WrapBasic_def)

text \<open>
  C10. On the wrapper made by \<open>WrapBasic\<close>, \<open>Next\<close> answers true at the first call
  and false at every later one; \<open>Err\<close> answers nil and \<open>ColumnTypes\<close> nil with a nil
  error, in every state; \<open>Scan\<close> leaves the flag alone. So \<open>BuildMap\<close> on the wrapper
  returns the nil map, and \<open>ScanWithFields\<close> is \<open>ScanWithMappedFields\<close> with the nil map.
\<close>

theorem scannableWrapper_one_row:
  "fst (Next (WrapBasic inner)) = True \<and>
   (\<forall>n. fst (Next (((\<lambda>s. snd (Next s)) ^^ Suc n) (WrapBasic inner))) = False) \<and>
   Err s = (None, s) \<and>
   ColumnTypes s = ((None, None), s) \<and>
   columnTypesM (wrapped c) = ColumnTypes \<and> nextM (wrapped c) = Next \<and> errM (wrapped c) = Err \<and>
   doneFlag (snd (scanM (wrapped c) hs s)) = doneFlag s \<and>
   fst (BuildMap (wrapped c) nf w) = Inr None \<and>
   ScanWithFields (wrapped c) nf w =
     ScanWithMappedFields (wrapped c) None nf (w\<lparr>trace := trace w @ [EvColumnTypes]\<rparr>)"
  apply (intro conjI allI)
  subgoal by (simp add: Next_def WrapBasic_def)
  subgoal for n unfolding Next_iter by (simp add: Next_def)
  subgoal by (simp add: Err_def)
  subgoal by (simp add: ColumnTypes_def)
  subgoal by (simp add: wrapped_def)
  subgoal by (simp add: wrapped_def)
  subgoal by (simp add: wrapped_def)
  subgoal by (simp add: wrapped_def split: prod.splits)
  subgoal by (simp add: BuildMap_def callColumnTypes_def wrapped_def ColumnTypes_def buildMapFrom_def)
  subgoal by (simp add: ScanWithFields_def BuildMap_def callColumnTypes_def wrapped_def
        ColumnTypes_def buildMapFrom_def)
  done

section \<open>The field-cache builder computes the descriptor\<close>

lemma toEntry_append: "toEntry (xs @ ys) = cAppend (toEntry xs) (toEntry ys)"
  by (simp add: toEntry_def cAppend_def)

lemma cAppend_assoc: "cAppend (cAppend a b) c = cAppend a (cAppend b c)"
  by (simp add: cAppend_def)

lemma cAppend_empty: "cAppend emptyEntry c = c"
  by (simp add: cAppend_def emptyEntry_def)

lemma cPush_toEntry: "cPush c name prefix v scanner = cAppend c (toEntry [(name, prefix @ [v], scanner)])"
  by (simp add: cPush_def cAppend_def toEntry_def)

lemma build_descriptor:
  "Kind t = Struct \<Longrightarrow> buildFieldCacheEntryForType t path = Inr (toEntry (descriptor t path))"
  "fieldLoop fs i path out = Inr (cAppend out (toEntry (fieldEntries fs i path)))"
proof (induction t path and fs i path out rule: buildFieldCacheEntryForType_fieldLoop.induct)
  case (1 name fs vm pm path)
  then show ?case by (simp add: cAppend_empty)
next
  case (5 i path out)
  show ?case by (simp add: toEntry_def cAppend_def)
next
  case (6 fname exported tag anonymous ftype fs i path out)
  show ?case
  proof (cases "exported \<and> tag \<noteq> None")
    case True
    then show ?thesis
      using "6.IH"(1) by (simp add: cPush_toEntry cAppend_assoc toEntry_append [symmetric])
  next
    case False
    show ?thesis
    proof (cases "anonymous \<and> Kind ftype = Struct")
      case True
      have sub: "buildFieldCacheEntryForType ftype (path @ [i]) =
          Inr (toEntry (descriptor ftype (path @ [i])))"
        using "6.IH"(2) [OF False True] True by simp
      have rest: "fieldLoop fs (i + 1) path (cAppend out (toEntry (descriptor ftype (path @ [i])))) =
          Inr (cAppend (cAppend out (toEntry (descriptor ftype (path @ [i]))))
                 (toEntry (fieldEntries fs (i + 1) path)))"
        using "6.IH"(3) [OF False True sub] .
      have unfold: "fieldLoop (SField fname exported tag anonymous ftype # fs) i path out =
          fieldLoop fs (i + 1) path (cAppend out (toEntry (descriptor ftype (path @ [i]))))"
        using False True sub by auto
      have ent: "fieldEntries (SField fname exported tag anonymous ftype # fs) i path =
          descriptor ftype (path @ [i]) @ fieldEntries fs (i + 1) path"
        using False True by auto
      show ?thesis
        unfolding unfold ent rest by (simp add: cAppend_assoc toEntry_append)
    next
      case n: False
      have unfold: "fieldLoop (SField fname exported tag anonymous ftype # fs) i path out =
          fieldLoop fs (i + 1) path out"
        using False n by auto
      have ent: "fieldEntries (SField fname exported tag anonymous ftype # fs) i path =
          fieldEntries fs (i + 1) path"
        using False n by auto
      show ?thesis
        unfolding unfold ent using "6.IH"(4) [OF False n] .
    qed
  qed
qed simp_all

lemma descriptor_flattened:
  "untaggedEmbedding t \<Longrightarrow> descriptor t path = flattened t path"
  "untaggedEmbeddingFields fs \<Longrightarrow> fieldEntries fs i path = flattenedFields fs i path"
  by (induction t path and fs i path rule: descriptor_fieldEntries.induct) auto

text \<open>
  C5, as the claim has it, fails: an anonymous embedded structure that is itself an exported
  field with a \<open>dml\<close> tag gets one entry under its own tag, and its entries are not
  expanded.
\<close>

theorem tagged_embedding_not_expanded:
  "buildFieldCacheEntryForType taggedEmbedding [] =
     Inr \<lparr>cNames = [''e'', ''f1''], cFields = [[0], [1]], cIsScanner = [False, False]\<rparr> \<and>
   buildFieldCacheEntryForType taggedEmbedding [] \<noteq> Inr (toEntry (flattened taggedEmbedding [])) \<and>
   flattened taggedEmbedding [] = [(''f0'', [0, 0], False), (''f1'', [1], False)]"
  by (simp add: taggedEmbedding_def embeddedF0_def strT_def toEntry_def cPush_def emptyEntry_def)

text \<open>
  C5, amended. For every structure type the builder returns, without error, the
  descriptor: the entries in declaration order; an exported field with a \<open>dml\<close> tag
  gives one entry, also when it is an anonymous structure, which is then not expanded;
  every other anonymous structure, exported or not, is expanded depth-first where it is
  declared, its paths extended by the field's index; a named nested structure is never
  entered; an unexported field gets no entry of its own, tagged or not. Where no expanded
  anonymous structure is an exported tagged field, this is the descriptor with every
  anonymous structure expanded. For the tagged fields \<open>f1, f2\<close> after an anonymous
  structure tagged \<open>f0\<close> the order is \<open>f0, f1, f2\<close>.
\<close>

theorem descriptor_order:
  "(Kind t = Struct \<longrightarrow> buildFieldCacheEntryForType t path = Inr (toEntry (descriptor t path))) \<and>
   (untaggedEmbedding t \<longrightarrow> descriptor t path = flattened t path) \<and>
   buildFieldCacheEntryForType orderExample [] =
     Inr \<lparr>cNames = [''f0'', ''f1'', ''f2''], cFields = [[0, 0], [1], [2]],
          cIsScanner = [False, False, False]\<rparr>"
proof -
  have "buildFieldCacheEntryForType orderExample [] =
     Inr \<lparr>cNames = [''f0'', ''f1'', ''f2''], cFields = [[0, 0], [1], [2]],
          cIsScanner = [False, False, False]\<rparr>"
    by (simp add: orderExample_def embeddedF0_def strT_def cPush_def cAppend_def emptyEntry_def)
  then show ?thesis
    using build_descriptor(1) [of t path] descriptor_flattened(1) [of t path] by blast
qed

theorem descriptor_order_witness:
  "Kind orderExample = Struct \<and> untaggedEmbedding orderExample \<and>
   buildFieldCacheEntryForType orderExample [] = Inr (toEntry (flattened orderExample []))"
proof -
  have k: "Kind orderExample = Struct" by (simp add: orderExample_def)
  have u: "untaggedEmbedding orderExample"
    by (simp add: orderExample_def embeddedF0_def strT_def)
  show ?thesis
    using k u descriptor_order [of orderExample "[]"] by simp
qed

section \<open>Resolving a descriptor twice\<close>

lemma cacheOk_empty: "cacheOk (\<lambda>_. None)"
  by (simp add: cacheOk_def)

lemma getFieldCachesFor_cacheOk:
  "cacheOk fc \<Longrightarrow> cacheOk (snd (getFieldCachesFor t fc))"
  by (auto simp: getFieldCachesFor_def cacheOk_def split: sum.splits option.splits)

lemma getFieldCachesFor_fresh:
  "cacheOk fc \<Longrightarrow> fst (getFieldCachesFor t fc) = fst (getFieldCachesFor t (\<lambda>_. None))"
  by (auto simp: getFieldCachesFor_def cacheOk_def split: sum.splits option.splits)

lemma getFieldCachesFor_again:
  "getFieldCachesFor t (snd (getFieldCachesFor t fc)) =
     (fst (getFieldCachesFor t fc), snd (getFieldCachesFor t fc))"
  by (auto simp: getFieldCachesFor_def split: sum.splits option.splits)

text \<open>
  C8. Resolving the same type again, in the cache the first resolution left, returns the
  same maker and leaves the cache as it is. Resolutions in two caches that hold only what
  the builder builds (as the empty cache does, and as every cache a resolution leaves)
  return equal makers, so a second build equals the first; for a structure type that is
  the entry of its descriptor: names, paths and self-scanning flags.
\<close>

theorem descriptor_build_idempotent:
  "getFieldCachesFor t (snd (getFieldCachesFor t fc)) = getFieldCachesFor t fc \<and>
   (cacheOk fc \<longrightarrow> cacheOk (snd (getFieldCachesFor t fc))) \<and>
   (cacheOk fc \<and> cacheOk fc' \<longrightarrow> fst (getFieldCachesFor t fc) = fst (getFieldCachesFor t fc')) \<and>
   cacheOk (\<lambda>_. None) \<and>
   (Kind t = Struct \<and> \<not> Implements t getFieldsType \<and> cacheOk fc \<longrightarrow>
      fst (getFieldCachesFor t fc) = Inr (CacheEntry (toEntry (descriptor t []))))"
proof -
  have 1: "getFieldCachesFor t (snd (getFieldCachesFor t fc)) = getFieldCachesFor t fc"
    using getFieldCachesFor_again [of t fc] by simp
  have 3: "cacheOk fc \<and> cacheOk fc' \<longrightarrow> fst (getFieldCachesFor t fc) = fst (getFieldCachesFor t fc')"
    using getFieldCachesFor_fresh [of fc t] getFieldCachesFor_fresh [of fc' t] by simp
  have 5: "Kind t = Struct \<and> \<not> Implements t getFieldsType \<and> cacheOk fc \<longrightarrow>
      fst (getFieldCachesFor t fc) = Inr (CacheEntry (toEntry (descriptor t [])))"
  proof
    assume a: "Kind t = Struct \<and> \<not> Implements t getFieldsType \<and> cacheOk fc"
    then have u: "unwrapType t = Inr t" by (cases t) simp_all
    have "fst (getFieldCachesFor t (\<lambda>_. None)) = Inr (CacheEntry (toEntry (descriptor t [])))"
      using a u build_descriptor(1) [of t "[]"] by (simp add: getFieldCachesFor_def)
    then show "fst (getFieldCachesFor t fc) = Inr (CacheEntry (toEntry (descriptor t [])))"
      using a getFieldCachesFor_fresh [of fc t] by simp
  qed
  show ?thesis
    using 1 3 5 getFieldCachesFor_cacheOk [of fc t] cacheOk_empty by blast
qed

theorem descriptor_build_idempotent_witness:
  "cacheOk (\<lambda>_. None) \<and> cacheOk (snd (getFieldCachesFor orderExample (\<lambda>_. None))) \<and>
   Kind orderExample = Struct \<and> \<not> Implements orderExample getFieldsType \<and>
   fst (getFieldCachesFor orderExample (\<lambda>_. None)) =
     fst (getFieldCachesFor orderExample (snd (getFieldCachesFor orderExample (\<lambda>_. None)))) \<and>
   fst (getFieldCachesFor orderExample (snd (getFieldCachesFor orderExample (\<lambda>_. None)))) =
     Inr (CacheEntry (toEntry (descriptor orderExample [])))"
proof -
  let ?fc = "snd (getFieldCachesFor orderExample (\<lambda>_. None))"
  note t0 = descriptor_build_idempotent [of orderExample "\<lambda>_. None" "\<lambda>_. None"]
  note t1 = descriptor_build_idempotent [of orderExample ?fc "\<lambda>_. None"]
  have e: "cacheOk (\<lambda>_. None)" using t0 by blast
  then have o: "cacheOk ?fc" using t0 by blast
  have k: "Kind orderExample = Struct" by (simp add: orderExample_def)
  have n: "\<not> Implements orderExample getFieldsType" by (simp add: orderExample_def)
  have a: "fst (getFieldCachesFor orderExample (\<lambda>_. None)) = fst (getFieldCachesFor orderExample ?fc)"
    using t1 e o by metis
  have b: "fst (getFieldCachesFor orderExample ?fc) = Inr (CacheEntry (toEntry (descriptor orderExample [])))"
    using t1 k n o by blast
  show ?thesis using e o k n a b by blast
qed

section \<open>Which calls are hooks\<close>

lemma hooksOf_append: "hooksOf (xs @ ys) = hooksOf xs @ hooksOf ys"
  by (induction xs rule: hooksOf.induct) auto

lemma hooksOf_map: "hooksOf (map EvPostScan vs) = vs"
  by (induction vs) auto

lemma quiet_refl: "quiet w w"
  by (simp add: quiet_def)

lemma quiet_same: "trace w' = trace w \<Longrightarrow> quiet w w'"
  by (simp add: quiet_def)

lemma quiet_trans: "quiet w w1 \<Longrightarrow> quiet w1 w2 \<Longrightarrow> quiet w w2"
  by (auto simp: quiet_def hooksOf_append)

lemma quiet_hooksOf: "quiet w w' \<Longrightarrow> hooksOf (trace w') = hooksOf (trace w)"
  by (auto simp: quiet_def hooksOf_append)

lemma quiet_callScan: "callScan c hs w = (r, w') \<Longrightarrow> quiet w w'"
  using trace_callScan [of c hs w] by (auto simp: quiet_def)

lemma quiet_callColumnTypes: "callColumnTypes c w = (r, w') \<Longrightarrow> quiet w w'"
  by (auto simp: callColumnTypes_def quiet_def split: prod.splits)

lemma quiet_callNext: "callNext c w = (r, w') \<Longrightarrow> quiet w w'"
  by (auto simp: callNext_def quiet_def split: prod.splits)

lemma quiet_callErr: "callErr c w = (r, w') \<Longrightarrow> quiet w w'"
  by (auto simp: callErr_def quiet_def split: prod.splits)

lemma quiet_makerNamedFields: "makerNamedFields c mk v w = (r, w') \<Longrightarrow> quiet w w'"
  by (auto simp: makerNamedFields_def quiet_def split: NamedFieldsMaker.splits option.splits if_splits)

lemma quiet_renderLoop: "renderLoop c nfm vs out w = (r, w') \<Longrightarrow> quiet w w'"
proof (induction c nfm vs out w rule: renderLoop.induct)
  case (3 c n nfm v vs out w)
  obtain r1 w1 where m: "makerNamedFields c n v w = (r1, w1)" by (cases "makerNamedFields c n v w")
  have q1: "quiet w w1" using quiet_makerNamedFields [OF m] .
  show ?case
  proof (cases r1)
    case (Inl e)
    then show ?thesis using "3.prems" m q1 by simp
  next
    case (Inr f)
    then have "renderLoop c nfm vs (Append out f) w1 = (r, w')" using "3.prems" m by simp
    then have "quiet w1 w'" using "3.IH" m Inr by simp
    then show ?thesis using q1 quiet_trans by blast
  qed
qed (auto simp: quiet_refl)

lemma quiet_RenderNamedFields: "RenderNamedFields c nfm vs w = (r, w') \<Longrightarrow> quiet w w'"
  by (auto simp: RenderNamedFields_def quiet_refl split: if_splits dest: quiet_renderLoop)

lemma quiet_GetFieldsFrom: "GetFieldsFrom c into w = (r, w') \<Longrightarrow> quiet w w'"
proof -
  assume a: "GetFieldsFrom c into w = (r, w')"
  show ?thesis
  proof (cases "NormalizeObjects into")
    case (Inl e)
    then show ?thesis using a by (simp add: GetFieldsFrom_def quiet_refl)
  next
    case (Inr vt)
    obtain vals types where vt: "vt = (vals, types)" by (cases vt)
    obtain r1 fc where g: "GetNamedFieldsMakers types [] (cache w) = (r1, fc)"
      by (cases "GetNamedFieldsMakers types [] (cache w)")
    have q0: "quiet w (w\<lparr>cache := fc\<rparr>)" by (simp add: quiet_same)
    show ?thesis
    proof (cases r1)
      case (Inl e)
      then show ?thesis using a Inr vt g q0 by (auto simp: GetFieldsFrom_def)
    next
      case r: (Inr nfm)
      then have "RenderNamedFields c nfm vals (w\<lparr>cache := fc\<rparr>) = (r, w')"
        using a Inr vt g by (simp add: GetFieldsFrom_def)
      then show ?thesis using quiet_RenderNamedFields q0 quiet_trans by blast
    qed
  qed
qed

lemma quiet_appendFieldsFrom: "appendFieldsFrom c xs nf w = (r, w') \<Longrightarrow> quiet w w'"
proof (induction c xs nf w rule: appendFieldsFrom.induct)
  case (2 c x xs nf w)
  obtain r1 w1 where g: "GetFieldsFrom c [x] w = (r1, w1)" by (cases "GetFieldsFrom c [x] w")
  have q1: "quiet w w1" using quiet_GetFieldsFrom [OF g] .
  show ?case
  proof (cases r1)
    case (Inl e)
    then show ?thesis using "2.prems" g q1 by simp
  next
    case (Inr f)
    then have "appendFieldsFrom c xs (Append nf f) w1 = (r, w')" using "2.prems" g by simp
    then have "quiet w1 w'" using "2.IH" g Inr by simp
    then show ?thesis using q1 quiet_trans by blast
  qed
qed (auto simp: quiet_refl)

lemma quiet_BuildNamedFields: "BuildNamedFields c into w = (r, w') \<Longrightarrow> quiet w w'"
proof (cases into)
  case Nil
  assume "BuildNamedFields c into w = (r, w')"
  then show ?thesis using Nil by (simp add: BuildNamedFields_def quiet_refl)
next
  case (Cons first rest)
  assume a: "BuildNamedFields c into w = (r, w')"
  obtain r1 w1 where g: "GetFieldsFrom c [first] w = (r1, w1)" by (cases "GetFieldsFrom c [first] w")
  have q1: "quiet w w1" using quiet_GetFieldsFrom [OF g] .
  show ?thesis
  proof (cases r1)
    case (Inl e)
    then show ?thesis using a Cons g q1 by (simp add: BuildNamedFields_def)
  next
    case (Inr nf)
    then have "appendFieldsFrom c rest nf w1 = (r, w')" using a Cons g by (simp add: BuildNamedFields_def)
    then show ?thesis using quiet_appendFieldsFrom q1 quiet_trans by blast
  qed
qed

lemma quiet_ScanWithMappedFields: "ScanWithMappedFields s m nf w = (r, w') \<Longrightarrow> quiet w w'"
  by (auto simp: ScanWithMappedFields_def quiet_refl split: sum.splits if_splits dest: quiet_callScan)

lemma quiet_BuildMap: "BuildMap adv nf w = (r, w') \<Longrightarrow> quiet w w'"
  by (auto simp: BuildMap_def split: prod.splits dest: quiet_callColumnTypes)

lemma quiet_ScanWithFields: "ScanWithFields adv nf w = (r, w') \<Longrightarrow> quiet w w'"
proof -
  assume a: "ScanWithFields adv nf w = (r, w')"
  obtain r1 w1 where b: "BuildMap adv nf w = (r1, w1)" by (cases "BuildMap adv nf w")
  have q1: "quiet w w1" using quiet_BuildMap [OF b] .
  show ?thesis
  proof (cases r1)
    case (Inl e)
    then show ?thesis using a b q1 by (simp add: ScanWithFields_def)
  next
    case (Inr m)
    then have "ScanWithMappedFields adv m nf w1 = (r, w')" using a b by (simp add: ScanWithFields_def)
    then show ?thesis using quiet_ScanWithMappedFields q1 quiet_trans by blast
  qed
qed

lemma invokedHooks_Nil: "invokedHooks c [] = []"
  by (simp add: invokedHooks_def)

lemma invokedHooks_Cons:
  "invokedHooks c (i # into) =
     (if postProcessable i
      then i # (if postScanM c i = None then invokedHooks c into else [])
      else invokedHooks c into)"
  by (simp add: invokedHooks_def Let_def)

lemma postScan_trace:
  "postScan c into w = (r, w') \<Longrightarrow> trace w' = trace w @ map EvPostScan (invokedHooks c into)"
proof (induction c into w arbitrary: r w' rule: postScan.induct)
  case (1 c w)
  then show ?case by (simp add: invokedHooks_Nil invokedHooks_Cons)
next
  case (2 c i into w)
  show ?case
  proof (cases "postProcessable i")
    case False
    then have "postScan c into w = (r, w')" using "2.prems" by (simp add: postProcessable_def)
    then have "trace w' = trace w @ map EvPostScan (invokedHooks c into)"
      using "2.IH"(2) False by (simp add: postProcessable_def)
    then show ?thesis using False by (simp add: invokedHooks_Nil invokedHooks_Cons)
  next
    case True
    show ?thesis
    proof (cases "postScanM c i")
      case None
      then have "postScan c into (w\<lparr>trace := trace w @ [EvPostScan i]\<rparr>) = (r, w')"
        using "2.prems" True by (simp add: postProcessable_def)
      then have "trace w' = trace (w\<lparr>trace := trace w @ [EvPostScan i]\<rparr>) @ map EvPostScan (invokedHooks c into)"
        using "2.IH"(1) True None by (simp add: postProcessable_def)
      then show ?thesis using True None by (simp add: invokedHooks_Nil invokedHooks_Cons)
    next
      case (Some err)
      then show ?thesis using "2.prems" True by (auto simp: postProcessable_def invokedHooks_Nil invokedHooks_Cons)
    qed
  qed
qed

lemma postScan_result:
  "fst (postScan c into w) = None \<longleftrightarrow> (\<forall>v\<in>set into. postProcessable v \<longrightarrow> postScanM c v = None)"
  by (induction c into w rule: postScan.induct) (auto simp: postProcessable_def split: option.splits)

lemma invokedHooks_all:
  "(\<forall>v\<in>set into. postProcessable v \<longrightarrow> postScanM c v = None) \<Longrightarrow>
   invokedHooks c into = filter postProcessable into"
proof -
  assume a: "\<forall>v\<in>set into. postProcessable v \<longrightarrow> postScanM c v = None"
  let ?h = "filter postProcessable into"
  have t: "takeWhile (\<lambda>v. postScanM c v = None) ?h = ?h"
    using a by (intro takeWhile_eq_all_conv [THEN iffD2]) auto
  have d: "dropWhile (\<lambda>v. postScanM c v = None) ?h = []"
    using a by (intro dropWhile_eq_Nil_conv [THEN iffD2]) auto
  show ?thesis by (simp add: invokedHooks_def t d)
qed

section \<open>The rollback of ScanArray\<close>

lemma trace_appendZeros: "trace (appendZeros c sl w) = trace w"
  by (induction c sl w rule: appendZeros.induct) auto

lemma trace_rewindSlices: "trace (snd (rewindSlices sl w)) = trace w"
  by (induction sl w rule: rewindSlices.induct) auto








lemma rewindSlices_other:
  "rewindSlices sl w = (r, w') \<Longrightarrow> p \<notin> targets sl \<Longrightarrow> slices w' p = slices w p"
  by (induction sl w rule: rewindSlices.induct) (auto simp: targets_def split: if_splits)

































lemma rowLoop_more_fuel:
  "rowLoop fuel it sl nfm smap w = Some r \<Longrightarrow> rowLoop (fuel + n) it sl nfm smap w = Some r"
proof (induction fuel arbitrary: w)
  case 0
  then show ?case by simp
next
  case (Suc fuel)
  then show ?case
    by (auto split: prod.splits bool.splits option.splits)
qed

lemma ScanArray_more_fuel:
  "ScanArray fuel it into w = Some r \<Longrightarrow> ScanArray (fuel + n) it into w = Some r"
proof -
  assume a: "ScanArray fuel it into w = Some r"
  obtain r1 w1 where s: "scanArraySetup it into w = (r1, w1)" by (cases "scanArraySetup it into w")
  show ?thesis
  proof (cases r1)
    case (Inl e)
    then show ?thesis using a s by (simp add: ScanArray_def)
  next
    case (Inr x)
    obtain sl nfm smap where x: "x = (sl, nfm, smap)" by (cases x)
    obtain rl where l: "rowLoop fuel it sl nfm smap w1 = Some rl"
      using a s Inr x by (cases "rowLoop fuel it sl nfm smap w1") (auto simp: ScanArray_def)
    have "rowLoop (fuel + n) it sl nfm smap w1 = Some rl" using rowLoop_more_fuel [OF l] .
    then show ?thesis using a s Inr x l by (simp add: ScanArray_def)
  qed
qed





end
